theory Spec2Isabelle
  imports Main "HOL-Library.Sublist"
begin

section \<open>The session pool of browser-pool, as a state machine\<close>

text \<open>
  The repository holds the class \<open>SessionPool\<close> twice: the TypeScript source
  \<^verbatim>\<open>src/pool.ts\<close> (compiled to \<^verbatim>\<open>dist/pool.js\<close>), here \<open>Basic\<close>, and a second
  build of \<^verbatim>\<open>pool.js\<close>, here \<open>Enhanced\<close>, that adds \<open>maxIdleMs\<close>, \<open>lastUsedAt\<close>,
  \<open>createPage\<close>, \<open>replaceSession\<close> and the clean-up of a session whose connection
  fails. Both are embedded; where they differ the definitions take the variant as their
  first argument.

  JavaScript runs each piece of code between two \<open>await\<close>s without interruption. Every
  such piece is one function on the state below; a call that is suspended at an \<open>await\<close>
  is an entry of \<open>tasks\<close>, resumed by the event \<open>Complete\<close>, which carries what the
  collaborators answered. \<open>Date.now()\<close> is the argument \<open>now\<close>. The calls to the
  collaborators are logged in \<open>trace\<close>, in the order in which they are made; those that
  \<open>createSession\<close> makes after its provisioning request are logged together, when it
  settles.
\<close>

datatype variant = Basic | Enhanced

type_synonym ref = nat
  \<comment> \<open>the identity of a \<open>PooledSession\<close> object\<close>
type_synonym caller = nat
  \<comment> \<open>the identity of one call of \<open>acquire()\<close>: its promise, or its resolve/reject pair\<close>

subsection \<open>Data\<close>

text \<open>
  \<open>PooledSession\<close>. The \<open>browser\<close> object is flattened into what the pool observes of
  it: \<open>connected\<close> is \<open>browser.isConnected()\<close>, \<open>hasOn\<close> is
  \<open>typeof browser.on === "function"\<close>, \<open>listener\<close> says that the pool has registered
  its \<open>"disconnected"\<close> handler. \<open>lastUsedAt\<close> is \<open>None\<close> where the object has no
  such property (the TypeScript source). \<open>ctx\<close> is the property \<open>context\<close>.
\<close>

record session =
  sessionId :: string
  cdpUrl :: string
  connected :: bool
  hasOn :: bool
  listener :: bool
  createdAt :: int
  useCount :: nat
  lastUsedAt :: "int option"
  ctx :: "nat option"
  page :: "nat option"

text \<open>
  The read-only fields that the constructor takes from \<open>PoolConfig\<close>. \<open>poolSize\<close> is
  the field \<open>size\<close>; it and \<open>maxUses\<close> are counts. The interval of the health check
  is left out: its timer is an event of the model.
\<close>

record config =
  poolSize :: nat
  maxUses :: nat
  maxAgeMs :: int
  maxIdleMs :: int
  enableHealthCheck :: bool
  enableWaitQueue :: bool
  enableDisconnectHandling :: bool
  createPage :: bool

datatype error =
    ProvisionError
  | NoCdpUrl
  | ConnectError
  | ContextError
  | PageError
  | PoolExhausted
  | PoolShuttingDown

text \<open>Calls to the two collaborators, in the order in which they are issued.\<close>

datatype effect =
    SdkCreate
  | ConnectOverCDP string
  | NewContext
  | NewPage
  | BrowserClose ref
  | SdkStop string

text \<open>
  How one call of \<open>acquire()\<close> ended: \<open>Returned\<close> and \<open>Threw\<close> are the
  \<open>return\<close> and \<open>throw\<close> of \<open>acquire\<close> itself, \<open>Resolved\<close> and \<open>Rejected\<close>
  are \<open>waiter.resolve\<close> and \<open>waiter.reject\<close> of a queued caller.
\<close>

datatype outcome =
    Returned caller ref
  | Threw caller error
  | Resolved caller ref
  | Rejected caller error

text \<open>
  The call that waits for a call of \<open>closeSession\<close> to finish: none where the source
  writes \<^verbatim>\<open>this.closeSession(session).catch(...)\<close> (and in \<open>shutdown\<close>, which waits
  for all of them and then only logs), or the call that is suspended at
  \<^verbatim>\<open>await this.closeSession(session)\<close>.
\<close>

datatype awaiter =
    Nobody
  | AddClosing
      \<comment> \<open>\<open>addSession\<close> at \<open>await this.closeSession(session)\<close>, before its \<open>finally\<close>\<close>
  | AcquireClosing caller
      \<comment> \<open>\<open>acquire\<close> at \<open>await this.closeSession(session)\<close>\<close>

text \<open>Calls suspended at an \<open>await\<close>.\<close>

datatype task =
    AddCreating
      \<comment> \<open>\<open>addSession\<close> at \<open>await this.createSession()\<close>\<close>
  | AcquireCreating caller
      \<comment> \<open>\<open>acquire\<close> at \<open>await this.createSession()\<close>\<close>
  | ReplaceCreating ref
      \<comment> \<open>\<open>replaceSession(oldSession)\<close> at \<open>await this.createSession()\<close>\<close>
  | Closing ref awaiter
      \<comment> \<open>\<open>closeSession(session)\<close> at \<open>await session.browser.close()\<close>\<close>
  | Stopping awaiter
      \<comment> \<open>\<open>closeSession(session)\<close> at \<open>await this.sdk.browser.session.stop(...)\<close>\<close>

text \<open>
  What the collaborators answer during one \<open>createSession()\<close>:
  \<open>provision\<close> is the result of \<open>sdk.browser.session.create()\<close> (\<open>None\<close>: it rejects;
  \<open>Some (sessionId, cdpUrl)\<close>, an empty \<open>cdpUrl\<close> being the falsy one);
  \<open>connect\<close> is the result of \<open>chromium.connectOverCDP\<close> (\<open>None\<close>: it rejects;
  \<open>Some b\<close>: a browser, \<open>b\<close> telling whether it has a method \<open>on\<close>);
  \<open>contexts\<close> is \<open>None\<close> when \<open>browser.contexts\<close> is not a function and the
  array it returns otherwise; \<open>newContext\<close> and \<open>newPage\<close> are \<open>None\<close> when the
  method is missing, \<open>Some None\<close> when the call rejects, \<open>Some (Some x)\<close> when it
  returns \<open>x\<close>; \<open>clock\<close> is \<open>Date.now()\<close> when the session object is built.
\<close>

record create_env =
  provision :: "(string \<times> string) option"
  connect :: "bool option"
  contexts :: "nat list option"
  newContext :: "nat option option"
  newPage :: "nat option option"
  clock :: int

record state =
  available :: "ref list"
    \<comment> \<open>the array \<open>available\<close>: \<open>push\<close> appends, \<open>pop\<close> takes the last element\<close>
  inUse :: "ref list"
    \<comment> \<open>the \<open>Set\<close> \<open>inUse\<close>, in insertion order\<close>
  creating :: int
  closed :: bool
  healthCheckTimer :: bool
  waitQueue :: "caller list"
  heap :: "ref \<Rightarrow> session"
  nextRef :: ref
  tasks :: "nat \<Rightarrow> task option"
  nextTask :: nat
  timers :: nat
    \<comment> \<open>pending \<open>setImmediate\<close>/\<open>setTimeout\<close> callbacks, each of which calls \<open>addSession\<close>\<close>
  trace :: "effect list"
  outcomes :: "outcome list"

definition blank :: session where
  "blank = \<lparr>sessionId = [], cdpUrl = [], connected = False, hasOn = False, listener = False,
     createdAt = 0, useCount = 0, lastUsedAt = None, ctx = None, page = None\<rparr>"

definition init_state :: state where
  "init_state = \<lparr>available = [], inUse = [], creating = 0, closed = False,
     healthCheckTimer = False, waitQueue = [], heap = (\<lambda>_. blank), nextRef = 0,
     tasks = (\<lambda>_. None), nextTask = 0, timers = 0, trace = [], outcomes = []\<rparr>"

subsection \<open>The \<open>Set\<close> operations used on \<open>inUse\<close>\<close>

definition set_add :: "ref \<Rightarrow> ref list \<Rightarrow> ref list" where
  "set_add r xs = (if r \<in> set xs then xs else xs @ [r])"

definition set_delete :: "ref \<Rightarrow> ref list \<Rightarrow> ref list" where
  "set_delete r xs = removeAll r xs"

subsection \<open>Capacity\<close>

definition totalCount :: "state \<Rightarrow> int" where
  "totalCount s = int (length (available s)) + int (length (inUse s)) + creating s"

subsection \<open>Session lifecycle\<close>

text \<open>
  \<open>createSession\<close> after its first \<open>await\<close>: the part that runs once
  \<open>sdk.browser.session.create()\<close> has settled. It does not touch the pool.
\<close>

definition createSession_rest ::
  "variant \<Rightarrow> config \<Rightarrow> create_env \<Rightarrow> effect list \<times> (error + session)" where
  "createSession_rest v cfg env =
    (case provision env of
       None \<Rightarrow> ([], Inl ProvisionError)
     | Some (sid, url) \<Rightarrow>
        if url = [] then ([], Inl NoCdpUrl)
        else (case connect env of
           None \<Rightarrow>
             (if v = Enhanced then ([ConnectOverCDP url, SdkStop sid], Inl ConnectError)
              else ([ConnectOverCDP url], Inl ConnectError))
         | Some b \<Rightarrow>
             (if v = Basic then
                ([ConnectOverCDP url],
                 Inr \<lparr>sessionId = sid, cdpUrl = url, connected = True, hasOn = b,
                   listener = False, createdAt = clock env, useCount = 0,
                   lastUsedAt = None, ctx = None, page = None\<rparr>)
              else
                (case (case contexts env of
                         None \<Rightarrow> ([], Inr None)
                       | Some cs \<Rightarrow>
                          (if cs \<noteq> [] then ([], Inr (Some (hd cs)))
                           else (case newContext env of
                                   None \<Rightarrow> ([], Inr None)
                                 | Some None \<Rightarrow> ([NewContext], Inl ContextError)
                                 | Some (Some c) \<Rightarrow> ([NewContext], Inr (Some c))))) of
                   (e1, Inl err) \<Rightarrow> (ConnectOverCDP url # e1, Inl err)
                 | (e1, Inr c) \<Rightarrow>
                    (case (if createPage cfg \<and> c \<noteq> None
                           then (case newPage env of
                                   None \<Rightarrow> ([], Inr None)
                                 | Some None \<Rightarrow> ([NewPage], Inl PageError)
                                 | Some (Some p) \<Rightarrow> ([NewPage], Inr (Some p)))
                           else ([], Inr None)) of
                       (e2, Inl err) \<Rightarrow> (ConnectOverCDP url # e1 @ e2, Inl err)
                     | (e2, Inr p) \<Rightarrow>
                        (ConnectOverCDP url # e1 @ e2,
                         Inr \<lparr>sessionId = sid, cdpUrl = url, connected = True, hasOn = b,
                           listener = False, createdAt = clock env, useCount = 0,
                           lastUsedAt = Some (clock env), ctx = c, page = p\<rparr>))))))"

text \<open>The whole of \<open>createSession\<close>: the provisioning call, then the rest.\<close>

definition createSession ::
  "variant \<Rightarrow> config \<Rightarrow> create_env \<Rightarrow> effect list \<times> (error + session)" where
  "createSession v cfg env =
    (SdkCreate # fst (createSession_rest v cfg env), snd (createSession_rest v cfg env))"

definition isUsable :: "variant \<Rightarrow> config \<Rightarrow> int \<Rightarrow> session \<Rightarrow> bool" where
  "isUsable v cfg now x =
    (if \<not> connected x then False
     else if useCount x \<ge> maxUses cfg then False
     else if now - createdAt x > maxAgeMs cfg then False
     else if v = Enhanced \<and> (case lastUsedAt x of None \<Rightarrow> False
                                | Some t \<Rightarrow> now - t > maxIdleMs cfg) then False
     else True)"

subsection \<open>Bookkeeping shared by the operations\<close>

text \<open>
  \<open>suspend\<close> parks the running call at an \<open>await\<close>; \<open>startCreate\<close> is the call
  \<open>this.createSession()\<close>, which issues the provisioning request at once and suspends;
  \<open>alloc\<close> is the object literal that \<open>createSession\<close> returns, a new object at
  address \<open>nextRef\<close>.
\<close>

definition suspend :: "task \<Rightarrow> state \<Rightarrow> state" where
  "suspend t s = s\<lparr>tasks := (tasks s)(nextTask s := Some t), nextTask := Suc (nextTask s)\<rparr>"

text \<open>
  \<open>closeSession\<close> up to its first \<open>await\<close>: \<open>session.browser.close()\<close> is called
  and the call is suspended until that has settled. It goes on in \<open>closeSession_stop\<close>
  with the call of \<open>sdk.browser.session.stop\<close> for the \<open>sessionId\<close> of the session,
  and is suspended until that has settled too. A failure of either call is caught, so both
  are always made, and what they answer does not matter.
\<close>

definition closeSession :: "awaiter \<Rightarrow> ref \<Rightarrow> state \<Rightarrow> state" where
  "closeSession w r s = suspend (Closing r w) (s\<lparr>trace := trace s @ [BrowserClose r]\<rparr>)"

definition closeSession_stop :: "nat \<Rightarrow> awaiter \<Rightarrow> ref \<Rightarrow> state \<Rightarrow> state" where
  "closeSession_stop tid w r s =
    s\<lparr>tasks := (tasks s)(tid := Some (Stopping w)),
      trace := trace s @ [SdkStop (sessionId (heap s r))]\<rparr>"

definition startCreate :: "task \<Rightarrow> state \<Rightarrow> state" where
  "startCreate t s = suspend t (s\<lparr>trace := trace s @ [SdkCreate]\<rparr>)"

definition alloc :: "session \<Rightarrow> state \<Rightarrow> state" where
  "alloc x s = s\<lparr>heap := (heap s)(nextRef s := x), nextRef := Suc (nextRef s)\<rparr>"

definition incUse :: "ref \<Rightarrow> state \<Rightarrow> state" where
  "incUse r s = s\<lparr>heap := (heap s)(r := (heap s r)\<lparr>useCount := Suc (useCount (heap s r))\<rparr>)\<rparr>"

text \<open>
  The hand-off written out in \<open>addSession\<close> and in \<open>release\<close>:
  \<^verbatim>\<open>const waiter = this.waitQueue.shift()!; this.inUse.add(session);
  session.useCount++; waiter.resolve(session);\<close>
\<close>

definition handOff :: "ref \<Rightarrow> state \<Rightarrow> state" where
  "handOff r s =
    (incUse r (s\<lparr>waitQueue := tl (waitQueue s), inUse := set_add r (inUse s)\<rparr>))
      \<lparr>outcomes := outcomes s @ [Resolved (hd (waitQueue s)) r]\<rparr>"

subsection \<open>\<open>addSession\<close> and \<open>replenish\<close>\<close>

text \<open>\<open>addSession\<close> up to \<open>await this.createSession()\<close>.\<close>

definition addSession :: "config \<Rightarrow> state \<Rightarrow> state" where
  "addSession cfg s =
    (if closed s then s
     else let s1 = s\<lparr>creating := creating s + 1\<rparr> in
       if totalCount s1 > int (poolSize cfg) then s1\<lparr>creating := creating s1 - 1\<rparr>
       else startCreate AddCreating s1)"

definition replenish :: "config \<Rightarrow> state \<Rightarrow> state" where
  "replenish cfg s = (if int (poolSize cfg) - totalCount s \<le> 0 then s else addSession cfg s)"

definition attachHandler :: "config \<Rightarrow> ref \<Rightarrow> state \<Rightarrow> state" where
  "attachHandler cfg r s =
    (if enableDisconnectHandling cfg \<and> hasOn (heap s r)
     then s\<lparr>heap := (heap s)(r := (heap s r)\<lparr>listener := True\<rparr>)\<rparr> else s)"

text \<open>
  \<open>addSession\<close> from the moment \<open>createSession\<close> has settled, with its \<open>catch\<close>
  and \<open>finally\<close>. On the two paths that \<open>await this.closeSession(session)\<close> the
  \<open>finally\<close> runs only when that call is done: \<open>creating\<close> stays incremented
  until then.
\<close>

definition addSession_resume :: "config \<Rightarrow> error + session \<Rightarrow> state \<Rightarrow> state" where
  "addSession_resume cfg res s =
    (case res of
       Inr x \<Rightarrow>
         (let r = nextRef s; s1 = attachHandler cfg r (alloc x s) in
          if closed s1 then closeSession AddClosing r s1
          else if totalCount s1 > int (poolSize cfg) then closeSession AddClosing r s1
          else
            (let s2 = (if enableWaitQueue cfg \<and> waitQueue s1 \<noteq> [] then handOff r s1
                       else s1\<lparr>available := available s1 @ [r]\<rparr>);
                 s3 = (if totalCount s2 < int (poolSize cfg) \<and> \<not> closed s2
                       then s2\<lparr>timers := Suc (timers s2)\<rparr> else s2)
             in s3\<lparr>creating := creating s3 - 1\<rparr>))
     | Inl err \<Rightarrow>
         (let s1 = (if enableWaitQueue cfg \<and> waitQueue s \<noteq> []
                    then s\<lparr>waitQueue := tl (waitQueue s),
                           outcomes := outcomes s @ [Rejected (hd (waitQueue s)) err]\<rparr>
                    else s);
              s2 = (if \<not> closed s1 \<and> totalCount s1 < int (poolSize cfg)
                    then s1\<lparr>timers := Suc (timers s1)\<rparr> else s1)
          in s2\<lparr>creating := creating s2 - 1\<rparr>))"

subsection \<open>\<open>acquire\<close>\<close>

text \<open>The \<open>while\<close> loop of \<open>acquire\<close>; the accepted session, if any, is returned.\<close>

function acquire_loop :: "variant \<Rightarrow> config \<Rightarrow> int \<Rightarrow> state \<Rightarrow> ref option \<times> state" where
  "acquire_loop v cfg now s =
    (if available s = [] then (None, s)
     else (let r = last (available s); s1 = s\<lparr>available := butlast (available s)\<rparr> in
       if isUsable v cfg now (heap s1 r) then (Some r, s1)
       else acquire_loop v cfg now (closeSession Nobody r s1)))"
  by pat_completeness auto
termination
  by (relation "measure (\<lambda>(v, cfg, now, s). length (available s))")
     (auto simp: closeSession_def suspend_def)

declare acquire_loop.simps [simp del]

text \<open>The end of \<open>acquire\<close>: the wait queue, or the error.\<close>

definition acquire_tail :: "config \<Rightarrow> caller \<Rightarrow> state \<Rightarrow> state" where
  "acquire_tail cfg c s =
    (if enableWaitQueue cfg then s\<lparr>waitQueue := waitQueue s @ [c]\<rparr>
     else s\<lparr>outcomes := outcomes s @ [Threw c PoolExhausted]\<rparr>)"

text \<open>\<open>acquire\<close> up to \<open>await this.createSession()\<close>, or to its end when it does not get there.\<close>

definition acquire :: "variant \<Rightarrow> config \<Rightarrow> caller \<Rightarrow> int \<Rightarrow> state \<Rightarrow> state" where
  "acquire v cfg c now s =
    (case acquire_loop v cfg now s of
       (Some r, s1) \<Rightarrow>
         (incUse r (s1\<lparr>inUse := set_add r (inUse s1)\<rparr>))
           \<lparr>outcomes := outcomes s1 @ [Returned c r]\<rparr>
     | (None, s1) \<Rightarrow>
         (let s2 = s1\<lparr>creating := creating s1 + 1\<rparr> in
          if totalCount s2 \<le> int (poolSize cfg) then startCreate (AcquireCreating c) s2
          else acquire_tail cfg c (s2\<lparr>creating := creating s2 - 1\<rparr>)))"

text \<open>\<open>acquire\<close> from the moment its \<open>createSession\<close> has settled.\<close>

definition acquire_resume :: "config \<Rightarrow> caller \<Rightarrow> error + session \<Rightarrow> state \<Rightarrow> state" where
  "acquire_resume cfg c res s =
    (case res of
       Inr x \<Rightarrow>
         (let r = nextRef s; s1 = alloc x s in
          if totalCount s1 > int (poolSize cfg)
          then closeSession (AcquireClosing c) r (s1\<lparr>creating := creating s1 - 1\<rparr>)
          else (incUse r (s1\<lparr>creating := creating s1 - 1, inUse := set_add r (inUse s1)\<rparr>))
                 \<lparr>outcomes := outcomes s1 @ [Returned c r]\<rparr>)
     | Inl err \<Rightarrow> s\<lparr>creating := creating s - 1, outcomes := outcomes s @ [Threw c err]\<rparr>)"

subsection \<open>\<open>release\<close>\<close>

definition release :: "variant \<Rightarrow> config \<Rightarrow> ref \<Rightarrow> bool \<Rightarrow> int \<Rightarrow> state \<Rightarrow> state" where
  "release v cfg r err now s =
    (let s1 = s\<lparr>inUse := set_delete r (inUse s)\<rparr> in
     if err \<or> \<not> isUsable v cfg now (heap s1 r) then replenish cfg (closeSession Nobody r s1)
     else
       (let s2 = (if v = Enhanced
                  then s1\<lparr>heap := (heap s1)(r := (heap s1 r)\<lparr>lastUsedAt := Some now\<rparr>)\<rparr>
                  else s1)
        in if enableWaitQueue cfg \<and> waitQueue s2 \<noteq> [] then handOff r s2
           else s2\<lparr>available := available s2 @ [r]\<rparr>))"

subsection \<open>\<open>shutdown\<close>\<close>

definition shutdown :: "state \<Rightarrow> state" where
  "shutdown s =
    (let s1 = s\<lparr>closed := True, healthCheckTimer := False,
                outcomes := outcomes s @ map (\<lambda>c. Rejected c PoolShuttingDown) (waitQueue s),
                waitQueue := []\<rparr>;
         allSessions = available s1 @ inUse s1;
         s2 = s1\<lparr>available := [], inUse := []\<rparr>
     in fold (closeSession Nobody) allSessions s2)"

subsection \<open>Health check\<close>

text \<open>
  One round of the second loop of \<open>performHealthCheck\<close> in the TypeScript source:
  \<open>indexOf\<close>, \<open>splice\<close>, \<open>closeSession\<close>.
\<close>

definition evict :: "ref \<Rightarrow> state \<Rightarrow> state" where
  "evict r s =
    (if r \<in> set (available s)
     then closeSession Nobody r (s\<lparr>available := remove1 r (available s)\<rparr>)
     else s)"

text \<open>\<open>replaceSession\<close> (enhanced build only) up to \<open>await this.createSession()\<close>, and from there.\<close>

definition replaceSession :: "ref \<Rightarrow> state \<Rightarrow> state" where
  "replaceSession old s = (if closed s then s else startCreate (ReplaceCreating old) s)"

definition replaceSession_resume :: "config \<Rightarrow> ref \<Rightarrow> error + session \<Rightarrow> state \<Rightarrow> state" where
  "replaceSession_resume cfg old res s =
    (case res of
       Inr x \<Rightarrow>
         (let r = nextRef s; s1 = attachHandler cfg r (alloc x s);
              s2 = s1\<lparr>available := remove1 old (available s1) @ [r]\<rparr>
          in closeSession Nobody old s2)
     | Inl err \<Rightarrow>
         (if old \<in> set (available s)
          then closeSession Nobody old (s\<lparr>available := remove1 old (available s)\<rparr>) else s))"

definition performHealthCheck :: "variant \<Rightarrow> config \<Rightarrow> int \<Rightarrow> state \<Rightarrow> state" where
  "performHealthCheck v cfg now s =
    (let stale = filter (\<lambda>r. \<not> isUsable v cfg now (heap s r)) (available s) in
     if v = Enhanced then replenish cfg (fold replaceSession stale s)
     else replenish cfg (fold evict stale s))"

text \<open>The callback of \<open>setInterval\<close>; a cleared timer does not fire.\<close>

definition healthTick :: "variant \<Rightarrow> config \<Rightarrow> int \<Rightarrow> state \<Rightarrow> state" where
  "healthTick v cfg now s =
    (if \<not> healthCheckTimer s then s
     else if closed s then s
     else performHealthCheck v cfg now s)"

definition startHealthCheck :: "state \<Rightarrow> state" where
  "startHealthCheck s = (if healthCheckTimer s then s else s\<lparr>healthCheckTimer := True\<rparr>)"

subsection \<open>\<open>init\<close>\<close>

text \<open>
  The loop of \<open>init\<close> calls \<open>addSession\<close> \<open>size\<close> times; once all of them have
  settled, \<open>init\<close> starts the health check.
\<close>

definition init :: "config \<Rightarrow> state \<Rightarrow> state" where
  "init cfg s = (addSession cfg ^^ poolSize cfg) s"

definition init_settled :: "config \<Rightarrow> state \<Rightarrow> state" where
  "init_settled cfg s = (if enableHealthCheck cfg then startHealthCheck s else s)"

subsection \<open>Disconnect\<close>

text \<open>The listener that \<open>addSession\<close> and \<open>replaceSession\<close> register.\<close>

definition onDisconnected :: "config \<Rightarrow> ref \<Rightarrow> state \<Rightarrow> state" where
  "onDisconnected cfg r s =
    replenish cfg
      (closeSession Nobody r
        (s\<lparr>available := remove1 r (available s), inUse := set_delete r (inUse s)\<rparr>))"

text \<open>The browser of session \<open>r\<close> loses its connection.\<close>

definition disconnect :: "config \<Rightarrow> ref \<Rightarrow> state \<Rightarrow> state" where
  "disconnect cfg r s =
    (let s1 = s\<lparr>heap := (heap s)(r := (heap s r)\<lparr>connected := False\<rparr>)\<rparr> in
     if listener (heap s1 r) then onDisconnected cfg r s1 else s1)"

subsection \<open>Timers and resumptions\<close>

text \<open>
  \<open>complete\<close> resumes the call suspended as task \<open>tid\<close>. For a call that waits
  for \<open>createSession\<close>, \<open>env\<close> is what the collaborators answer. A call of
  \<open>closeSession\<close> is resumed twice: when \<open>browser.close()\<close> has settled it calls
  \<open>stop\<close>, and when that has settled it is done and the call that waits for it, if
  there is one, goes on.
\<close>

definition timer :: "config \<Rightarrow> state \<Rightarrow> state" where
  "timer cfg s = (if timers s = 0 then s else addSession cfg (s\<lparr>timers := timers s - 1\<rparr>))"

definition complete :: "variant \<Rightarrow> config \<Rightarrow> nat \<Rightarrow> create_env \<Rightarrow> state \<Rightarrow> state" where
  "complete v cfg tid env s =
    (case tasks s tid of
       None \<Rightarrow> s
     | Some t \<Rightarrow>
        (let s0 = s\<lparr>tasks := (tasks s)(tid := None)\<rparr>;
             es = fst (createSession_rest v cfg env);
             res = snd (createSession_rest v cfg env);
             s1 = s0\<lparr>trace := trace s0 @ es\<rparr>
         in case t of
              AddCreating \<Rightarrow> addSession_resume cfg res s1
            | AcquireCreating c \<Rightarrow> acquire_resume cfg c res s1
            | ReplaceCreating old \<Rightarrow> replaceSession_resume cfg old res s1
            | Closing r w \<Rightarrow> closeSession_stop tid w r s
            | Stopping w \<Rightarrow>
               (case w of
                  Nobody \<Rightarrow> s0
                | AddClosing \<Rightarrow> s0\<lparr>creating := creating s0 - 1\<rparr>
                | AcquireClosing c \<Rightarrow> acquire_tail cfg c s0)))"

subsection \<open>Runs\<close>

datatype event =
    Init
  | InitSettled
  | Acquire caller int
  | Release ref bool int
  | Shutdown
  | Complete nat create_env
  | Timer
  | Disconnect ref
  | HealthTick int

fun step :: "variant \<Rightarrow> config \<Rightarrow> event \<Rightarrow> state \<Rightarrow> state" where
  "step v cfg Init s = init cfg s"
| "step v cfg InitSettled s = init_settled cfg s"
| "step v cfg (Acquire c now) s = acquire v cfg c now s"
| "step v cfg (Release r err now) s = release v cfg r err now s"
| "step v cfg Shutdown s = shutdown s"
| "step v cfg (Complete tid env) s = complete v cfg tid env s"
| "step v cfg Timer s = timer cfg s"
| "step v cfg (Disconnect r) s = disconnect cfg r s"
| "step v cfg (HealthTick now) s = healthTick v cfg now s"

fun run :: "variant \<Rightarrow> config \<Rightarrow> event list \<Rightarrow> state \<Rightarrow> state" where
  "run v cfg [] s = s"
| "run v cfg (e # es) s = run v cfg es (step v cfg e s)"

subsection \<open>Notions used in the statements\<close>

text \<open>
  The state after \<open>closeSession\<close> has been called for each session of \<open>ds\<close> in
  turn, with \<open>w\<close> waiting: \<open>browser.close()\<close> has been called for each, and each
  call is suspended there, as the tasks \<open>nextTask s\<close>, \<open>nextTask s + 1\<close>, ...
\<close>

definition closeStarted :: "awaiter \<Rightarrow> ref list \<Rightarrow> state \<Rightarrow> state" where
  "closeStarted w ds s =
    s\<lparr>trace := trace s @ map BrowserClose ds,
      tasks := (\<lambda>j. if nextTask s \<le> j \<and> j < nextTask s + length ds
                     then Some (Closing (ds ! (j - nextTask s)) w) else tasks s j),
      nextTask := nextTask s + length ds\<rparr>"

text \<open>
  How often the trace holds \<open>browser.close()\<close> for the session at \<open>r\<close>: how often
  the teardown of that session was started.
\<close>

definition closes_of :: "ref \<Rightarrow> effect list \<Rightarrow> nat" where
  "closes_of r es = length (filter (\<lambda>e. e = BrowserClose r) es)"

text \<open>
  The callers that have left the wait queue (\<open>waiter.resolve\<close> or
  \<open>waiter.reject\<close> was called), in the order in which they left it.
\<close>

fun dequeued :: "outcome list \<Rightarrow> caller list" where
  "dequeued [] = []"
| "dequeued (Resolved c r # os) = c # dequeued os"
| "dequeued (Rejected c e # os) = c # dequeued os"
| "dequeued (Returned c r # os) = dequeued os"
| "dequeued (Threw c e # os) = dequeued os"

text \<open>The callers that were handed a session through the queue, in the order of the hand-offs.\<close>

fun served :: "outcome list \<Rightarrow> caller list" where
  "served [] = []"
| "served (Resolved c r # os) = c # served os"
| "served (Rejected c e # os) = served os"
| "served (Returned c r # os) = served os"
| "served (Threw c e # os) = served os"

text \<open>
  From \<open>s\<close> to \<open>s'\<close> outcomes were only added and the queue was served from its
  head only: the callers that left it, followed by those still in it, are the queue of
  \<open>s\<close> followed by new arrivals.
\<close>

definition queue_ext :: "state \<Rightarrow> state \<Rightarrow> bool" where
  "queue_ext s s' =
    (\<exists>more new. outcomes s' = outcomes s @ more
       \<and> dequeued more @ waitQueue s' = waitQueue s @ new)"

text \<open>
  A \<open>release\<close> that cannot put a session into the pool that the pool does not hold:
  the session is in \<open>inUse\<close>, or it is released with the error flag or unusable (it
  is then closed, not pooled). Every other event is free. A run is \<open>honest\<close> when
  every \<open>release\<close> in it is of this kind.
\<close>

fun held :: "variant \<Rightarrow> config \<Rightarrow> state \<Rightarrow> event \<Rightarrow> bool" where
  "held v cfg s (Release r err now) =
     (r \<in> set (inUse s) \<or> err \<or> \<not> isUsable v cfg now (heap s r))"
| "held v cfg s Init = True"
| "held v cfg s InitSettled = True"
| "held v cfg s (Acquire c now) = True"
| "held v cfg s Shutdown = True"
| "held v cfg s (Complete tid env) = True"
| "held v cfg s Timer = True"
| "held v cfg s (Disconnect r) = True"
| "held v cfg s (HealthTick now) = True"

fun honest :: "variant \<Rightarrow> config \<Rightarrow> event list \<Rightarrow> state \<Rightarrow> bool" where
  "honest v cfg [] s = True"
| "honest v cfg (e # es) s = (held v cfg s e \<and> honest v cfg es (step v cfg e s))"

text \<open>
  The events of an honest run in which the replacement of sessions by the health check
  of the enhanced build takes no part: its sweep is not run and its suspended
  \<open>replaceSession\<close> calls are not resumed. A run of such events is \<open>admissible\<close>.
\<close>

fun permitted :: "variant \<Rightarrow> config \<Rightarrow> state \<Rightarrow> event \<Rightarrow> bool" where
  "permitted v cfg s (Release r err now) = held v cfg s (Release r err now)"
| "permitted v cfg s (HealthTick now) = (v = Basic)"
| "permitted v cfg s (Complete tid env) =
     (case tasks s tid of Some (ReplaceCreating old) \<Rightarrow> False | _ \<Rightarrow> True)"
| "permitted v cfg s Init = True"
| "permitted v cfg s InitSettled = True"
| "permitted v cfg s (Acquire c now) = True"
| "permitted v cfg s Shutdown = True"
| "permitted v cfg s Timer = True"
| "permitted v cfg s (Disconnect r) = True"

fun admissible :: "variant \<Rightarrow> config \<Rightarrow> event list \<Rightarrow> state \<Rightarrow> bool" where
  "admissible v cfg [] s = True"
| "admissible v cfg (e # es) s =
     (permitted v cfg s e \<and> admissible v cfg es (step v cfg e s))"

text \<open>The pool is within its capacity.\<close>

definition within :: "config \<Rightarrow> state \<Rightarrow> bool" where
  "within cfg s = (totalCount s \<le> int (poolSize cfg))"

text \<open>
  \<open>available\<close> and \<open>inUse\<close> hold no session twice, and only sessions that exist.
\<close>

definition tidy :: "state \<Rightarrow> bool" where
  "tidy s = (distinct (available s @ inUse s)
     \<and> (\<forall>r\<in>set (available s @ inUse s). r < nextRef s))"

text \<open>
  The session at \<open>r\<close> exists and the pool holds it no more: it is neither in
  \<open>available\<close> nor in \<open>inUse\<close>.
\<close>

definition gone :: "ref \<Rightarrow> state \<Rightarrow> bool" where
  "gone r s = (r < nextRef s \<and> r \<notin> set (available s) \<and> r \<notin> set (inUse s))"

subsection \<open>Sample configurations, answers and states\<close>

text \<open>
  The defaults of the constructor for a pool of one session, and its variations: no wait
  queue, no use allowed, health check on, two sessions.
\<close>

definition cfg_one :: config where
  "cfg_one = \<lparr>poolSize = 1, maxUses = 50, maxAgeMs = 300000, maxIdleMs = 120000,
     enableHealthCheck = False, enableWaitQueue = True, enableDisconnectHandling = True,
     createPage = False\<rparr>"

definition cfg_noqueue :: config where
  "cfg_noqueue = cfg_one\<lparr>enableWaitQueue := False\<rparr>"

definition cfg_zero_uses :: config where
  "cfg_zero_uses = cfg_one\<lparr>maxUses := 0\<rparr>"

definition cfg_hc :: config where
  "cfg_hc = cfg_one\<lparr>enableHealthCheck := True\<rparr>"

definition cfg_two :: config where
  "cfg_two = cfg_one\<lparr>poolSize := 2\<rparr>"

text \<open>
  The collaborators answer: session \<open>s1\<close> at \<open>ws://s1\<close> and a browser with a method
  \<open>on\<close>, at time \<open>0\<close>; or the same with \<open>connectOverCDP\<close> rejecting.
\<close>

definition env_ok :: create_env where
  "env_ok = \<lparr>provision = Some (''s1'', ''ws://s1''), connect = Some True, contexts = None,
     newContext = None, newPage = None, clock = 0\<rparr>"

definition env_noconnect :: create_env where
  "env_noconnect = env_ok\<lparr>connect := None\<rparr>"

text \<open>A session just created, and one whose browser has lost its connection.\<close>

definition sess_fresh :: session where
  "sess_fresh = \<lparr>sessionId = ''s1'', cdpUrl = ''ws://s1'', connected = True, hasOn = True,
     listener = False, createdAt = 0, useCount = 0, lastUsedAt = Some 0, ctx = None,
     page = None\<rparr>"

definition sess_dead :: session where
  "sess_dead = sess_fresh\<lparr>sessionId := ''s2'', connected := False\<rparr>"

text \<open>
  Pool states: a stack with a dead session on top of a fresh one; a dead session
  available and a fresh one in use; one session in use;
  the same with two callers queued; the same with an on-demand creation in flight; the
  same with the session of that creation closed as over capacity; one
  session available, one in use and a caller queued; a stack with a dead session under a
  fresh one and the health check running; the same with the replacement of the dead
  session in flight.
\<close>

definition st_stack :: state where
  "st_stack = init_state\<lparr>available := [1, 2],
     heap := (\<lambda>_. blank)(1 := sess_fresh, 2 := sess_dead), nextRef := 3\<rparr>"

definition st_dead :: state where
  "st_dead = init_state\<lparr>available := [2], inUse := [1],
     heap := (\<lambda>_. blank)(1 := sess_fresh, 2 := sess_dead), nextRef := 3\<rparr>"

definition st_busy :: state where
  "st_busy = init_state\<lparr>inUse := [1], heap := (\<lambda>_. blank)(1 := sess_fresh), nextRef := 2\<rparr>"

definition st_waiting :: state where
  "st_waiting = st_busy\<lparr>waitQueue := [4, 5]\<rparr>"

definition st_over :: state where
  "st_over = st_busy\<lparr>creating := 1, tasks := (\<lambda>_. None)(0 := Some (AcquireCreating 3)),
     nextTask := 1\<rparr>"

definition st_closed_over :: state where
  "st_closed_over = st_busy\<lparr>tasks := (\<lambda>_. None)(1 := Some (Stopping (AcquireClosing 3))),
     nextTask := 2\<rparr>"

definition st_pair :: state where
  "st_pair = init_state\<lparr>available := [1], inUse := [2],
     heap := (\<lambda>_. blank)(1 := sess_fresh, 2 := sess_dead), nextRef := 3, waitQueue := [8]\<rparr>"

definition st_stale :: state where
  "st_stale = init_state\<lparr>available := [1, 2],
     heap := (\<lambda>_. blank)(1 := sess_dead, 2 := sess_fresh), nextRef := 3,
     healthCheckTimer := True\<rparr>"

definition st_replacing :: state where
  "st_replacing = st_stale\<lparr>tasks := (\<lambda>_. None)(0 := Some (ReplaceCreating 1)), nextTask := 1\<rparr>"

text \<open>
  A pool of two that is filling: \<open>init\<close> has requested two sessions, the first is
  there and caller \<open>9\<close> has taken it, the second is still being created; callers
  \<open>4\<close> and \<open>5\<close> have found the pool saturated and are queued, in this order.
\<close>

definition st_filling :: state where
  "st_filling = run Enhanced cfg_two
     [Init, Complete 0 env_ok, Acquire 9 1, Acquire 4 2, Acquire 5 3] init_state"

section \<open>Properties\<close>

subsection \<open>Calls of \<open>closeSession\<close> in a row\<close>

lemma closeStarted_Nil [simp]: "closeStarted w [] s = s"
proof -
  have "(\<lambda>j. if nextTask s \<le> j \<and> j < nextTask s
              then Some (Closing ([] ! (j - nextTask s)) w) else tasks s j) = tasks s"
    by (auto simp: fun_eq_iff)
  then show ?thesis by (simp add: closeStarted_def)
qed

lemma closeStarted_Cons:
  "closeStarted w (x # xs) s = closeStarted w xs (closeSession w x s)"
proof -
  have "(\<lambda>j. if nextTask s \<le> j \<and> j < Suc (nextTask s + length xs)
              then Some (Closing ((x # xs) ! (j - nextTask s)) w) else tasks s j)
      = (\<lambda>j. if Suc (nextTask s) \<le> j \<and> j < Suc (nextTask s + length xs)
              then Some (Closing (xs ! (j - Suc (nextTask s))) w)
              else ((tasks s)(nextTask s := Some (Closing x w))) j)"
    by (auto simp: fun_eq_iff nth_Cons' Suc_le_eq)
  then show ?thesis
    by (simp add: closeStarted_def closeSession_def suspend_def cong: if_cong)
qed

lemma fold_closeSession: "fold (closeSession w) xs s = closeStarted w xs s"
  by (induction xs arbitrary: s) (simp_all add: closeStarted_Cons)

lemma closeStarted_fields [simp]:
  "available (closeStarted w ds s) = available s"
  "inUse (closeStarted w ds s) = inUse s"
  "creating (closeStarted w ds s) = creating s"
  "closed (closeStarted w ds s) = closed s"
  "healthCheckTimer (closeStarted w ds s) = healthCheckTimer s"
  "waitQueue (closeStarted w ds s) = waitQueue s"
  "heap (closeStarted w ds s) = heap s"
  "nextRef (closeStarted w ds s) = nextRef s"
  "timers (closeStarted w ds s) = timers s"
  "outcomes (closeStarted w ds s) = outcomes s"
  "trace (closeStarted w ds s) = trace s @ map BrowserClose ds"
  "nextTask (closeStarted w ds s) = nextTask s + length ds"
  by (simp_all add: closeStarted_def)

lemma closeStarted_available:
  "closeStarted w ds (s\<lparr>available := xs\<rparr>) = (closeStarted w ds s)\<lparr>available := xs\<rparr>"
  by (simp add: closeStarted_def cong: if_cong)

lemma closeStarted_tasks:
  "i < length ds \<Longrightarrow> tasks (closeStarted w ds s) (nextTask s + i) = Some (Closing (ds ! i) w)"
  "j < nextTask s \<Longrightarrow> tasks (closeStarted w ds s) j = tasks s j"
  by (simp_all add: closeStarted_def)

subsection \<open>Unfolding\<close>

lemmas sample_defs = cfg_one_def cfg_noqueue_def cfg_zero_uses_def env_ok_def env_noconnect_def
  sess_fresh_def sess_dead_def st_stack_def st_dead_def st_busy_def init_state_def blank_def

lemmas sample2_defs = st_waiting_def st_over_def st_pair_def

lemmas sample3_defs = cfg_hc_def st_stale_def st_replacing_def

lemmas pool_defs = totalCount_def set_add_def set_delete_def closeSession_def
  closeSession_stop_def isUsable_def
  suspend_def startCreate_def alloc_def incUse_def handOff_def addSession_def replenish_def
  attachHandler_def addSession_resume_def acquire_tail_def acquire_def acquire_resume_def
  release_def shutdown_def evict_def replaceSession_def replaceSession_resume_def
  performHealthCheck_def healthTick_def startHealthCheck_def init_def init_settled_def
  onDisconnected_def disconnect_def timer_def complete_def createSession_rest_def
  createSession_def closeStarted_Cons

subsection \<open>The loop of \<open>acquire\<close>\<close>

lemma rev_snoc_last: "xs \<noteq> [] \<Longrightarrow> rev xs = last xs # rev (butlast xs)"
  by (induction xs rule: rev_induct) auto

text \<open>
  The loop pops sessions from the top of the stack for as long as they are unusable,
  calls \<open>closeSession\<close> for each without waiting for it, and returns the first usable
  one.
\<close>

lemma acquire_loop_eq:
  "acquire_loop v cfg now s =
    (let bad = (\<lambda>r. \<not> isUsable v cfg now (heap s r));
         ds = takeWhile bad (rev (available s));
         rest = dropWhile bad (rev (available s))
     in (case rest of [] \<Rightarrow> None | r # _ \<Rightarrow> Some r,
         closeStarted Nobody ds (s\<lparr>available := rev (tl rest)\<rparr>)))"
proof (induction v cfg now s rule: acquire_loop.induct)
  case (1 v cfg now s)
  show ?case
  proof (cases "available s = []")
    case True
    then show ?thesis by (simp add: acquire_loop.simps)
  next
    case False
    note ne = this
    let ?r = "last (available s)"
    let ?s1 = "s\<lparr>available := butlast (available s)\<rparr>"
    have rv: "rev (available s) = ?r # rev (butlast (available s))"
      using ne by (rule rev_snoc_last)
    show ?thesis
    proof (cases "isUsable v cfg now (heap s ?r)")
      case True
      then show ?thesis using ne
        by (simp add: acquire_loop.simps [of v cfg now s] rv Let_def)
    next
      case False
      let ?s2 = "closeSession Nobody ?r ?s1"
      have ih: "acquire_loop v cfg now ?s2 =
        (let bad = (\<lambda>r. \<not> isUsable v cfg now (heap ?s2 r));
             ds = takeWhile bad (rev (available ?s2));
             rest = dropWhile bad (rev (available ?s2))
         in (case rest of [] \<Rightarrow> None | r # _ \<Rightarrow> Some r,
             closeStarted Nobody ds (?s2\<lparr>available := rev (tl rest)\<rparr>)))"
        using "1.IH" [OF ne refl refl] False by simp
      have cl: "heap ?s2 = heap s" "available ?s2 = butlast (available s)"
        by (simp_all add: closeSession_def suspend_def)
      have sw: "?s2\<lparr>available := xs\<rparr> = closeSession Nobody ?r (s\<lparr>available := xs\<rparr>)" for xs
        by (simp add: closeSession_def suspend_def)
      show ?thesis
        using ne False
        by (simp add: acquire_loop.simps [of v cfg now s] ih cl rv Let_def sw closeStarted_Cons)
    qed
  qed
qed

lemma acquire_loop_stale:
  assumes "\<forall>r\<in>set (available s). \<not> isUsable v cfg now (heap s r)"
  shows "acquire_loop v cfg now s =
    (None, (closeStarted Nobody (rev (available s)) s)\<lparr>available := []\<rparr>)"
proof -
  let ?bad = "\<lambda>r. \<not> isUsable v cfg now (heap s r)"
  have tw: "takeWhile ?bad (rev (available s)) = rev (available s)"
    and dw: "dropWhile ?bad (rev (available s)) = []"
    using assms by simp_all
  show ?thesis
    by (simp add: acquire_loop_eq Let_def tw dw closeStarted_available
          del: takeWhile_eq_all_conv dropWhile_eq_Nil_conv)
qed

subsection \<open>Session creation when the connection fails\<close>

lemma createSession_Enhanced_connect_failure:
  assumes "provision env = Some (sid, url)" and "url \<noteq> []" and "connect env = None"
  shows "createSession Enhanced cfg env =
    ([SdkCreate, ConnectOverCDP url, SdkStop sid], Inl ConnectError)"
  using assms by (simp add: createSession_def createSession_rest_def)

lemma createSession_Basic_connect_failure:
  assumes "provision env = Some (sid, url)" and "url \<noteq> []" and "connect env = None"
  shows "createSession Basic cfg env = ([SdkCreate, ConnectOverCDP url], Inl ConnectError)"
  using assms by (simp add: createSession_def createSession_rest_def)

text \<open>
  C5. In session creation, when provisioning succeeds and opening the connection fails,
  the provisioned session is stopped before the error reaches the caller. The
  enhanced build does so (\<open>createSession_Enhanced_connect_failure\<close>). \<open>createSession\<close> of the
  TypeScript source does not: provisioning answers session \<open>s1\<close> at \<open>ws://s1\<close>,
  \<open>connectOverCDP\<close> rejects, and the call ends with the connection error after two
  collaborator calls, none of them the stop of \<open>s1\<close>.
\<close>

theorem createSession_Basic_connect_failure_leaks:
  "createSession Basic cfg env_noconnect =
     ([SdkCreate, ConnectOverCDP ''ws://s1''], Inl ConnectError)
   \<and> SdkStop ''s1'' \<notin> set (fst (createSession Basic cfg env_noconnect))"
  by (simp add: createSession_def createSession_rest_def env_noconnect_def env_ok_def)

subsection \<open>Exhaustion without a wait queue\<close>

text \<open>
  C8. With the wait queue disabled, a call of \<open>acquire()\<close> that finds no usable
  session in \<open>available\<close> and no capacity left (\<open>totalCount\<close>, counted after the stale
  sessions are popped and \<open>creating\<close> is incremented, is over \<open>size\<close>) throws the
  pool-exhausted error in the same step: the call is not suspended (the only calls left
  suspended are the \<open>closeSession\<close> calls for the stale sessions that it popped),
  nothing is queued, no session is requested, and \<open>creating\<close> is back at its value.
\<close>

theorem acquire_exhausted_without_queue:
  assumes noq: "\<not> enableWaitQueue cfg"
    and stale: "\<forall>r\<in>set (available s). \<not> isUsable v cfg now (heap s r)"
    and full: "int (poolSize cfg) < int (length (inUse s)) + creating s + 1"
  shows "outcomes (acquire v cfg c now s) = outcomes s @ [Threw c PoolExhausted]
    \<and> waitQueue (acquire v cfg c now s) = waitQueue s
    \<and> tasks (acquire v cfg c now s) = tasks (closeStarted Nobody (rev (available s)) s)
    \<and> nextTask (acquire v cfg c now s) = nextTask s + length (available s)
    \<and> creating (acquire v cfg c now s) = creating s
    \<and> inUse (acquire v cfg c now s) = inUse s
    \<and> available (acquire v cfg c now s) = []
    \<and> trace (acquire v cfg c now s) = trace s @ map BrowserClose (rev (available s))"
proof -
  have loop: "acquire_loop v cfg now s =
      (None, (closeStarted Nobody (rev (available s)) s)\<lparr>available := []\<rparr>)"
    using stale by (rule acquire_loop_stale)
  show ?thesis
    using noq full by (simp add: acquire_def loop totalCount_def acquire_tail_def Let_def)
qed

theorem acquire_exhausted_without_queue_witness:
  "\<not> enableWaitQueue cfg_noqueue
   \<and> int (poolSize cfg_noqueue) < int (length (inUse st_busy)) + creating st_busy + 1
   \<and> outcomes (acquire Basic cfg_noqueue 9 5 st_busy) = [Threw 9 PoolExhausted]
   \<and> waitQueue (acquire Basic cfg_noqueue 9 5 st_busy) = []
   \<and> tasks (acquire Basic cfg_noqueue 9 5 st_busy) = tasks st_busy
   \<and> outcomes (acquire Basic cfg_noqueue 9 5 st_dead) = [Threw 9 PoolExhausted]
   \<and> trace (acquire Basic cfg_noqueue 9 5 st_dead) = [BrowserClose 2]
   \<and> tasks (acquire Basic cfg_noqueue 9 5 st_dead) 0 = Some (Closing 2 Nobody)
   \<and> nextTask (acquire Basic cfg_noqueue 9 5 st_dead) = 1"
proof -
  have h1: "\<not> enableWaitQueue cfg_noqueue" by (simp add: sample_defs)
  have h2: "\<forall>r\<in>set (available st_busy). \<not> isUsable Basic cfg_noqueue 5 (heap st_busy r)"
    by (simp add: sample_defs)
  have h3: "int (poolSize cfg_noqueue) < int (length (inUse st_busy)) + creating st_busy + 1"
    by (simp add: sample_defs)
  have g2: "\<forall>r\<in>set (available st_dead). \<not> isUsable Basic cfg_noqueue 5 (heap st_dead r)"
    by (simp add: sample_defs isUsable_def)
  have g3: "int (poolSize cfg_noqueue) < int (length (inUse st_dead)) + creating st_dead + 1"
    by (simp add: sample_defs)
  have e: "available st_busy = []" "outcomes st_busy = []" "waitQueue st_busy = []"
    "available st_dead = [2]" "outcomes st_dead = []" "trace st_dead = []"
    "nextTask st_dead = 0"
    by (simp_all add: sample_defs)
  note a = acquire_exhausted_without_queue [OF h1 h2 h3, of 9]
  note b = acquire_exhausted_without_queue [OF h1 g2 g3, of 9]
  have b3: "tasks (acquire Basic cfg_noqueue 9 5 st_dead) 0 = Some (Closing 2 Nobody)"
    using b closeStarted_tasks(1) [of 0 "[2]" Nobody st_dead] by (simp add: e)
  from a b b3 h1 h3 show ?thesis by (simp add: e)
qed

text \<open>
  The scenario of the specification: size one, no wait queue. The first \<open>acquire()\<close>
  creates a session on demand; a second one fails at once, whether the first has its
  session already or is still creating it.
\<close>

lemma second_acquire_exhausted:
  "outcomes (run v cfg_noqueue [Acquire 0 0, Complete 0 env_ok, Acquire 1 1] init_state)
     = [Returned 0 0, Threw 1 PoolExhausted]
   \<and> outcomes (run v cfg_noqueue [Acquire 0 0, Acquire 1 1] init_state)
     = [Threw 1 PoolExhausted]"
  by (cases v) (simp_all add: acquire_loop_eq sample_defs pool_defs Let_def)

subsection \<open>What \<open>acquire\<close> returns\<close>

text \<open>
  C2, as the code has it. When a call of \<open>acquire()\<close> returns a session \<open>r\<close> in
  the step in which it was called, \<open>r\<close> was taken from the \<open>available\<close> stack and
  \<open>isUsable\<close> held of it when it was popped, that is before its use count was
  incremented; every session \<open>d\<close> popped before it (those above it on the stack) failed
  \<open>isUsable\<close> and \<open>closeSession\<close> was called for it, and nothing else was closed
  or removed. When no session of \<open>available\<close> is usable, all of them are popped and
  closed, top first, none is returned, and the call goes on to the on-demand creation or
  to the queue. A call of \<open>closeSession\<close> calls \<open>browser.close()\<close> at once and
  \<open>stop\<close> when that has settled; it touches neither the sets nor the outcomes. The
  predicate of the TypeScript source has no idle clause. The path that creates a session
  on demand does not evaluate the predicate; what it can return is shown after the
  witness.
\<close>

theorem acquire_returns_popped_only_if_usable:
  "(outcomes (acquire v cfg c now s) = outcomes s @ [Returned c r] \<longrightarrow>
      isUsable v cfg now (heap s r)
    \<and> useCount (heap (acquire v cfg c now s) r) = Suc (useCount (heap s r))
    \<and> r \<in> set (inUse (acquire v cfg c now s))
    \<and> (\<exists>ds. available s = available (acquire v cfg c now s) @ r # rev ds
          \<and> (\<forall>d\<in>set ds. \<not> isUsable v cfg now (heap s d))
          \<and> trace (acquire v cfg c now s) = trace s @ map BrowserClose ds
          \<and> tasks (acquire v cfg c now s) = tasks (closeStarted Nobody ds s)))
   \<and> ((\<forall>d\<in>set (available s). \<not> isUsable v cfg now (heap s d)) \<longrightarrow>
      available (acquire v cfg c now s) = []
    \<and> inUse (acquire v cfg c now s) = inUse s
    \<and> (\<forall>x. outcomes (acquire v cfg c now s) \<noteq> outcomes s @ [Returned c x])
    \<and> (\<exists>m. trace (acquire v cfg c now s)
          = trace s @ map BrowserClose (rev (available s)) @ replicate m SdkCreate)
    \<and> (\<forall>i < length (available s).
          tasks (acquire v cfg c now s) (nextTask s + i)
            = Some (Closing (rev (available s) ! i) Nobody)))
   \<and> (tasks s tid = Some (Closing d w) \<longrightarrow>
      trace (complete v cfg tid env s) = trace s @ [SdkStop (sessionId (heap s d))]
    \<and> tasks (complete v cfg tid env s) = (tasks s)(tid := Some (Stopping w))
    \<and> available (complete v cfg tid env s) = available s
    \<and> inUse (complete v cfg tid env s) = inUse s
    \<and> outcomes (complete v cfg tid env s) = outcomes s)"
proof (intro conjI impI)
  let ?bad = "\<lambda>r. \<not> isUsable v cfg now (heap s r)"
  let ?ds = "takeWhile ?bad (rev (available s))"
  let ?rest = "dropWhile ?bad (rev (available s))"
  {
    assume ret: "outcomes (acquire v cfg c now s) = outcomes s @ [Returned c r]"
    have found: "isUsable v cfg now (heap s r)
      \<and> useCount (heap (acquire v cfg c now s) r) = Suc (useCount (heap s r))
      \<and> r \<in> set (inUse (acquire v cfg c now s))
      \<and> (\<exists>ds. available s = available (acquire v cfg c now s) @ r # rev ds
          \<and> (\<forall>d\<in>set ds. \<not> isUsable v cfg now (heap s d))
          \<and> trace (acquire v cfg c now s) = trace s @ map BrowserClose ds
          \<and> tasks (acquire v cfg c now s) = tasks (closeStarted Nobody ds s))"
    proof (cases ?rest)
      case Nil
      then have "acquire_loop v cfg now s =
          (None, (closeStarted Nobody ?ds s)\<lparr>available := []\<rparr>)"
        by (simp add: acquire_loop_eq Let_def closeStarted_available
              del: dropWhile_eq_Nil_conv)
      then have "outcomes (acquire v cfg c now s) = outcomes s
          \<or> outcomes (acquire v cfg c now s) = outcomes s @ [Threw c PoolExhausted]"
        by (simp add: acquire_def Let_def acquire_tail_def startCreate_def suspend_def)
      with ret show ?thesis by auto
    next
      case (Cons r' rest')
      then have loop: "acquire_loop v cfg now s =
          (Some r', (closeStarted Nobody ?ds s)\<lparr>available := rev rest'\<rparr>)"
        by (simp add: acquire_loop_eq Let_def closeStarted_available)
      have acq: "acquire v cfg c now s =
          (incUse r' ((closeStarted Nobody ?ds s)\<lparr>available := rev rest',
              inUse := set_add r' (inUse s)\<rparr>))\<lparr>outcomes := outcomes s @ [Returned c r']\<rparr>"
        by (simp add: acquire_def loop)
      from ret acq have rr: "r' = r" by (simp add: incUse_def)
      have "\<not> ?bad (hd ?rest)"
        by (rule hd_dropWhile) (simp add: Cons)
      then have us: "isUsable v cfg now (heap s r)" using Cons rr by simp
      have "rev (available s) = ?ds @ ?rest" by simp
      then have "rev (available s) = ?ds @ r # rest'" using Cons rr by simp
      then have "rev (rev (available s)) = rev (?ds @ r # rest')" by (rule arg_cong)
      then have av: "available s = rev rest' @ r # rev ?ds" by simp
      have bad: "\<forall>d\<in>set ?ds. \<not> isUsable v cfg now (heap s d)"
        by (auto dest: set_takeWhileD)
      have ex: "\<exists>ds. available s = available (acquire v cfg c now s) @ r # rev ds
            \<and> (\<forall>d\<in>set ds. \<not> isUsable v cfg now (heap s d))
            \<and> trace (acquire v cfg c now s) = trace s @ map BrowserClose ds
            \<and> tasks (acquire v cfg c now s) = tasks (closeStarted Nobody ds s)"
        apply (rule exI [of _ ?ds])
        using av bad by (simp add: acq incUse_def)
      show ?thesis
        using us ex by (simp add: acq rr incUse_def set_add_def)
    qed
    from found show "isUsable v cfg now (heap s r)"
      and "useCount (heap (acquire v cfg c now s) r) = Suc (useCount (heap s r))"
      and "r \<in> set (inUse (acquire v cfg c now s))"
      and "\<exists>ds. available s = available (acquire v cfg c now s) @ r # rev ds
          \<and> (\<forall>d\<in>set ds. \<not> isUsable v cfg now (heap s d))
          \<and> trace (acquire v cfg c now s) = trace s @ map BrowserClose ds
          \<and> tasks (acquire v cfg c now s) = tasks (closeStarted Nobody ds s)"
      by blast+
  }
  {
    assume stale: "\<forall>d\<in>set (available s). \<not> isUsable v cfg now (heap s d)"
    let ?s1 = "closeStarted Nobody (rev (available s)) s"
    have loop: "acquire_loop v cfg now s = (None, ?s1\<lparr>available := []\<rparr>)"
      using stale by (rule acquire_loop_stale)
    show "available (acquire v cfg c now s) = []"
      and "inUse (acquire v cfg c now s) = inUse s"
      by (simp_all add: acquire_def loop Let_def acquire_tail_def startCreate_def suspend_def)
    show "\<forall>x. outcomes (acquire v cfg c now s) \<noteq> outcomes s @ [Returned c x]"
      by (simp add: acquire_def loop Let_def acquire_tail_def startCreate_def suspend_def)
    have "trace (acquire v cfg c now s)
          = trace s @ map BrowserClose (rev (available s)) @ replicate 0 SdkCreate
        \<or> trace (acquire v cfg c now s)
          = trace s @ map BrowserClose (rev (available s)) @ replicate 1 SdkCreate"
      by (simp add: acquire_def loop Let_def acquire_tail_def startCreate_def suspend_def)
    then show "\<exists>m. trace (acquire v cfg c now s)
          = trace s @ map BrowserClose (rev (available s)) @ replicate m SdkCreate"
      by blast
    show "\<forall>i < length (available s).
          tasks (acquire v cfg c now s) (nextTask s + i)
            = Some (Closing (rev (available s) ! i) Nobody)"
    proof (intro allI impI)
      fix i assume i: "i < length (available s)"
      then have c: "tasks ?s1 (nextTask s + i) = Some (Closing (rev (available s) ! i) Nobody)"
        using closeStarted_tasks(1) [of i "rev (available s)" Nobody s] by simp
      have "tasks (acquire v cfg c now s) (nextTask s + i) = tasks ?s1 (nextTask s + i)"
        using i
        by (simp add: acquire_def loop Let_def acquire_tail_def startCreate_def suspend_def)
      with c show "tasks (acquire v cfg c now s) (nextTask s + i)
            = Some (Closing (rev (available s) ! i) Nobody)"
        by simp
    qed
  }
  {
    assume "tasks s tid = Some (Closing d w)"
    then show "trace (complete v cfg tid env s) = trace s @ [SdkStop (sessionId (heap s d))]"
      and "tasks (complete v cfg tid env s) = (tasks s)(tid := Some (Stopping w))"
      and "available (complete v cfg tid env s) = available s"
      and "inUse (complete v cfg tid env s) = inUse s"
      and "outcomes (complete v cfg tid env s) = outcomes s"
      by (simp_all add: complete_def closeSession_stop_def Let_def)
  }
qed

theorem acquire_returns_popped_only_if_usable_witness:
  "outcomes (acquire Enhanced cfg_one 7 10 st_stack) = outcomes st_stack @ [Returned 7 1]
   \<and> isUsable Enhanced cfg_one 10 (heap st_stack 1)
   \<and> useCount (heap (acquire Enhanced cfg_one 7 10 st_stack) 1)
       = Suc (useCount (heap st_stack 1))
   \<and> trace (acquire Enhanced cfg_one 7 10 st_stack) = [BrowserClose 2]
   \<and> tasks (acquire Enhanced cfg_one 7 10 st_stack) 0 = Some (Closing 2 Nobody)
   \<and> trace (complete Enhanced cfg_one 0 env_ok (acquire Enhanced cfg_one 7 10 st_stack))
       = [BrowserClose 2, SdkStop ''s2'']
   \<and> available (acquire Enhanced cfg_one 7 10 st_dead) = []
   \<and> waitQueue (acquire Enhanced cfg_one 7 10 st_dead) = [7]
   \<and> trace (acquire Enhanced cfg_one 7 10 st_dead) = [BrowserClose 2]"
proof -
  have h: "outcomes (acquire Enhanced cfg_one 7 10 st_stack)
      = outcomes st_stack @ [Returned 7 1]"
    by (simp add: acquire_def acquire_loop_eq sample_defs pool_defs Let_def closeStarted_Cons)
  have t: "trace (acquire Enhanced cfg_one 7 10 st_stack) = [BrowserClose 2]"
    and k: "tasks (acquire Enhanced cfg_one 7 10 st_stack) 0 = Some (Closing 2 Nobody)"
    and hp: "sessionId (heap (acquire Enhanced cfg_one 7 10 st_stack) 2) = ''s2''"
    by (simp_all add: acquire_def acquire_loop_eq sample_defs pool_defs Let_def closeStarted_Cons)
  have g: "\<forall>d\<in>set (available st_dead). \<not> isUsable Enhanced cfg_one 10 (heap st_dead d)"
    by (simp add: sample_defs isUsable_def)
  have w: "waitQueue (acquire Enhanced cfg_one 7 10 st_dead) = [7]"
    and t2: "trace (acquire Enhanced cfg_one 7 10 st_dead) = [BrowserClose 2]"
    by (simp_all add: acquire_def acquire_loop_eq sample_defs pool_defs Let_def closeStarted_Cons)
  note th1 = acquire_returns_popped_only_if_usable
    [where v = Enhanced and cfg = cfg_one and c = 7 and now = 10 and s = st_stack and r = 1]
  note th2 = acquire_returns_popped_only_if_usable
    [where v = Enhanced and cfg = cfg_one and c = 7 and now = 10 and s = st_dead and r = 1]
  note th3 = acquire_returns_popped_only_if_usable
    [where v = Enhanced and cfg = cfg_one and s = "acquire Enhanced cfg_one 7 10 st_stack"
       and tid = 0 and d = 2 and w = Nobody and env = env_ok]
  have a: "isUsable Enhanced cfg_one 10 (heap st_stack 1)
      \<and> useCount (heap (acquire Enhanced cfg_one 7 10 st_stack) 1)
          = Suc (useCount (heap st_stack 1))"
    using th1 h by blast
  have b: "available (acquire Enhanced cfg_one 7 10 st_dead) = []"
    using th2 g by blast
  have "trace (complete Enhanced cfg_one 0 env_ok (acquire Enhanced cfg_one 7 10 st_stack))
      = trace (acquire Enhanced cfg_one 7 10 st_stack)
          @ [SdkStop (sessionId (heap (acquire Enhanced cfg_one 7 10 st_stack) 2))]"
    using th3 k by blast
  then have s: "trace (complete Enhanced cfg_one 0 env_ok (acquire Enhanced cfg_one 7 10 st_stack))
      = [BrowserClose 2, SdkStop ''s2'']"
    unfolding t hp by simp
  show ?thesis
    using h a t k s b w t2 by blast
qed

text \<open>
  C2 as stated fails. A pool of size one with \<open>maxUses = 0\<close> and nothing available:
  \<open>acquire()\<close> creates a session on demand and returns it. Its use count, zero when it
  was created and one when it is returned, has reached \<open>maxUses\<close> at both moments, so
  \<open>isUsable\<close> is false of the session that the caller receives.
\<close>

theorem acquire_on_demand_returns_unusable:
  "outcomes (run Enhanced cfg_zero_uses [Acquire 0 0, Complete 0 env_ok] init_state)
     = [Returned 0 0]
   \<and> \<not> isUsable Enhanced cfg_zero_uses 0
        (heap (run Enhanced cfg_zero_uses [Acquire 0 0, Complete 0 env_ok] init_state) 0)
   \<and> useCount (heap (run Enhanced cfg_zero_uses [Acquire 0 0, Complete 0 env_ok] init_state) 0)
       = 1
   \<and> \<not> isUsable Enhanced cfg_zero_uses 0
        ((heap (run Enhanced cfg_zero_uses [Acquire 0 0, Complete 0 env_ok] init_state) 0)
           \<lparr>useCount := 0\<rparr>)"
  by (simp add: acquire_loop_eq sample_defs pool_defs Let_def)

subsection \<open>The closed pool\<close>

text \<open>What \<open>shutdown\<close> does to the queue, and what \<open>addSession\<close> does once the pool is closed.\<close>

lemma shutdown_fails_queued_waiters:
  "closed (shutdown s) \<and> waitQueue (shutdown s) = []
   \<and> outcomes (shutdown s) = outcomes s @ map (\<lambda>c. Rejected c PoolShuttingDown) (waitQueue s)"
  by (simp add: shutdown_def Let_def fold_closeSession)

lemma addSession_closed: "closed s \<Longrightarrow> addSession cfg s = s"
  by (simp add: addSession_def)

text \<open>
  C3. Once \<open>closed\<close> is set no session is created, and a caller of \<open>acquire()\<close> is
  failed with the shutting-down error. \<open>shutdown\<close> fails the callers that are queued
  (\<open>shutdown_fails_queued_waiters\<close>) and \<open>addSession\<close> gives up
  (\<open>addSession_closed\<close>), but \<open>acquire\<close> never reads \<open>closed\<close>: after
  \<open>shutdown()\<close> on a pool of size one, \<open>acquire()\<close> requests a new session and, when
  it is there, returns it to the caller and keeps it in \<open>inUse\<close>; a second caller that
  arrives while that creation is in flight is queued, and stays queued.
\<close>

theorem acquire_after_shutdown_creates_and_serves:
  "closed (run v cfg_one [Shutdown] init_state)
   \<and> trace (run v cfg_one [Shutdown] init_state) = []
   \<and> trace (run v cfg_one [Shutdown, Acquire 0 0] init_state) = [SdkCreate]
   \<and> outcomes (run v cfg_one [Shutdown, Acquire 0 0, Complete 0 env_ok] init_state)
       = [Returned 0 0]
   \<and> inUse (run v cfg_one [Shutdown, Acquire 0 0, Complete 0 env_ok] init_state) = [0]
   \<and> closed (run v cfg_one [Shutdown, Acquire 0 0, Complete 0 env_ok] init_state)
   \<and> waitQueue (run v cfg_one [Shutdown, Acquire 0 0, Acquire 1 1, Complete 0 env_ok]
        init_state) = [1]
   \<and> outcomes (run v cfg_one [Shutdown, Acquire 0 0, Acquire 1 1, Complete 0 env_ok]
        init_state) = [Returned 0 0]"
  by (cases v) (simp_all add: acquire_loop_eq sample_defs pool_defs Let_def)

subsection \<open>\<open>release\<close> of a usable session\<close>

text \<open>
  C6, as the code has it. \<open>release(session)\<close> without the error flag, the session
  being usable: the session is deleted from \<open>inUse\<close>; in the enhanced build its
  \<open>lastUsedAt\<close> is set to \<open>now\<close> (the TypeScript source has no such property and
  sets nothing); then, when the wait queue is enabled and not empty, the session goes to
  the caller at the head of the queue as a new acquisition (use count incremented, back in
  \<open>inUse\<close>, \<open>resolve\<close> called), and otherwise it is pushed on top of \<open>available\<close>.
  Nothing is closed and nothing is created.
\<close>

theorem release_usable_session:
  assumes ok: "\<not> err" and us: "isUsable v cfg now (heap s r)"
  shows "(v = Enhanced \<longrightarrow> lastUsedAt (heap (release v cfg r err now s) r) = Some now)
    \<and> trace (release v cfg r err now s) = trace s
    \<and> creating (release v cfg r err now s) = creating s
    \<and> (if enableWaitQueue cfg \<and> waitQueue s \<noteq> []
        then waitQueue (release v cfg r err now s) = tl (waitQueue s)
           \<and> outcomes (release v cfg r err now s) = outcomes s @ [Resolved (hd (waitQueue s)) r]
           \<and> inUse (release v cfg r err now s) = set_delete r (inUse s) @ [r]
           \<and> useCount (heap (release v cfg r err now s) r) = Suc (useCount (heap s r))
           \<and> available (release v cfg r err now s) = available s
        else available (release v cfg r err now s) = available s @ [r]
           \<and> inUse (release v cfg r err now s) = set_delete r (inUse s)
           \<and> r \<notin> set (inUse (release v cfg r err now s))
           \<and> useCount (heap (release v cfg r err now s) r) = useCount (heap s r)
           \<and> outcomes (release v cfg r err now s) = outcomes s
           \<and> waitQueue (release v cfg r err now s) = waitQueue s)"
  using ok us
  by (cases v) (simp_all add: release_def Let_def handOff_def incUse_def set_add_def set_delete_def)

theorem release_usable_session_witness:
  "isUsable Enhanced cfg_one 5 (heap st_waiting 1)
   \<and> lastUsedAt (heap (release Enhanced cfg_one 1 False 5 st_waiting) 1) = Some 5
   \<and> waitQueue (release Enhanced cfg_one 1 False 5 st_waiting) = [5]
   \<and> outcomes (release Enhanced cfg_one 1 False 5 st_waiting) = [Resolved 4 1]
   \<and> inUse (release Enhanced cfg_one 1 False 5 st_waiting) = [1]
   \<and> available (release Enhanced cfg_one 1 False 5 st_busy) = [1]
   \<and> inUse (release Enhanced cfg_one 1 False 5 st_busy) = []"
proof -
  have n: "\<not> False" by simp
  have u1: "isUsable Enhanced cfg_one 5 (heap st_waiting 1)"
    by (simp add: sample_defs sample2_defs isUsable_def)
  have u2: "isUsable Enhanced cfg_one 5 (heap st_busy 1)"
    by (simp add: sample_defs sample2_defs isUsable_def)
  from release_usable_session [OF n u1] release_usable_session [OF n u2] u1
  show ?thesis by (simp add: sample_defs sample2_defs set_delete_def)
qed

text \<open>
  C6 as stated fails on the TypeScript source: a session is acquired and released, usable
  and without the error flag, at time \<open>5\<close>; it is back in \<open>available\<close> and its
  last-used timestamp is not \<open>5\<close>.
\<close>

theorem release_Basic_keeps_no_timestamp:
  "isUsable Basic cfg_one 5 (heap (run Basic cfg_one [Acquire 0 0, Complete 0 env_ok] init_state) 0)
   \<and> available (run Basic cfg_one [Acquire 0 0, Complete 0 env_ok, Release 0 False 5] init_state) = [0]
   \<and> lastUsedAt (heap (run Basic cfg_one [Acquire 0 0, Complete 0 env_ok, Release 0 False 5] init_state) 0)
       \<noteq> Some 5"
  by (simp add: acquire_loop_eq sample_defs pool_defs Let_def)

subsection \<open>Over capacity after an on-demand creation\<close>

text \<open>
  C10. \<open>acquire\<close> is suspended in its on-demand creation (task \<open>tid\<close>), the creation
  succeeds with session \<open>x\<close>, and the re-check finds \<open>totalCount\<close> over \<open>size\<close>. Then
  \<open>creating\<close> is decremented, \<open>closeSession\<close> is called for the new session (the
  object at \<open>nextRef s\<close>), which calls \<open>browser.close()\<close>; \<open>available\<close> and
  \<open>inUse\<close> stay as they are and the caller gets no result; the call waits for the
  close. When \<open>browser.close()\<close> has settled, whatever happened in between (state
  \<open>s2\<close>), \<open>stop\<close> is called for the session and nothing else changes. When that
  has settled (state \<open>s3\<close>), the caller is appended to the wait queue if the queue is
  enabled and gets the pool-exhausted error if not; the sets are again untouched.
\<close>

theorem acquire_over_capacity_after_create:
  assumes task: "tasks s tid = Some (AcquireCreating c)"
    and made: "snd (createSession_rest v cfg env) = Inr x"
    and over: "int (poolSize cfg) < totalCount s"
  shows "available (complete v cfg tid env s) = available s
    \<and> inUse (complete v cfg tid env s) = inUse s
    \<and> outcomes (complete v cfg tid env s) = outcomes s
    \<and> waitQueue (complete v cfg tid env s) = waitQueue s
    \<and> creating (complete v cfg tid env s) = creating s - 1
    \<and> heap (complete v cfg tid env s) (nextRef s) = x
    \<and> trace (complete v cfg tid env s) =
        trace s @ fst (createSession_rest v cfg env) @ [BrowserClose (nextRef s)]
    \<and> tasks (complete v cfg tid env s) (nextTask s)
        = Some (Closing (nextRef s) (AcquireClosing c))
    \<and> (\<forall>s2 env2. tasks s2 (nextTask s) = Some (Closing (nextRef s) (AcquireClosing c)) \<longrightarrow>
          available (complete v cfg (nextTask s) env2 s2) = available s2
        \<and> inUse (complete v cfg (nextTask s) env2 s2) = inUse s2
        \<and> outcomes (complete v cfg (nextTask s) env2 s2) = outcomes s2
        \<and> waitQueue (complete v cfg (nextTask s) env2 s2) = waitQueue s2
        \<and> creating (complete v cfg (nextTask s) env2 s2) = creating s2
        \<and> trace (complete v cfg (nextTask s) env2 s2)
            = trace s2 @ [SdkStop (sessionId (heap s2 (nextRef s)))]
        \<and> tasks (complete v cfg (nextTask s) env2 s2) (nextTask s)
            = Some (Stopping (AcquireClosing c)))
    \<and> (\<forall>s3 env3. tasks s3 (nextTask s) = Some (Stopping (AcquireClosing c)) \<longrightarrow>
          available (complete v cfg (nextTask s) env3 s3) = available s3
        \<and> inUse (complete v cfg (nextTask s) env3 s3) = inUse s3
        \<and> creating (complete v cfg (nextTask s) env3 s3) = creating s3
        \<and> trace (complete v cfg (nextTask s) env3 s3) = trace s3
        \<and> tasks (complete v cfg (nextTask s) env3 s3) (nextTask s) = None
        \<and> (if enableWaitQueue cfg
            then waitQueue (complete v cfg (nextTask s) env3 s3) = waitQueue s3 @ [c]
               \<and> outcomes (complete v cfg (nextTask s) env3 s3) = outcomes s3
            else waitQueue (complete v cfg (nextTask s) env3 s3) = waitQueue s3
               \<and> outcomes (complete v cfg (nextTask s) env3 s3)
                   = outcomes s3 @ [Threw c PoolExhausted]))"
proof -
  have first: "complete v cfg tid env s =
      closeSession (AcquireClosing c) (nextRef s)
        ((alloc x (s\<lparr>tasks := (tasks s)(tid := None),
                      trace := trace s @ fst (createSession_rest v cfg env)\<rparr>))
           \<lparr>creating := creating s - 1\<rparr>)"
    using task made over
    by (simp add: complete_def acquire_resume_def Let_def totalCount_def alloc_def)
  have second: "\<And>s2 env2. tasks s2 (nextTask s) = Some (Closing (nextRef s) (AcquireClosing c)) \<Longrightarrow>
      complete v cfg (nextTask s) env2 s2 =
        closeSession_stop (nextTask s) (AcquireClosing c) (nextRef s) s2"
    by (simp add: complete_def Let_def)
  have third: "\<And>s3 env3. tasks s3 (nextTask s) = Some (Stopping (AcquireClosing c)) \<Longrightarrow>
      complete v cfg (nextTask s) env3 s3 =
        acquire_tail cfg c (s3\<lparr>tasks := (tasks s3)(nextTask s := None)\<rparr>)"
    by (simp add: complete_def Let_def)
  show ?thesis
    by (simp add: first second third suspend_def closeSession_def closeSession_stop_def
        alloc_def acquire_tail_def)
qed

theorem acquire_over_capacity_after_create_witness:
  "tasks st_over 0 = Some (AcquireCreating 3)
   \<and> int (poolSize cfg_one) < totalCount st_over
   \<and> inUse (complete Basic cfg_one 0 env_ok st_over) = [1]
   \<and> available (complete Basic cfg_one 0 env_ok st_over) = []
   \<and> outcomes (complete Basic cfg_one 0 env_ok st_over) = []
   \<and> trace (complete Basic cfg_one 0 env_ok st_over)
       = [ConnectOverCDP ''ws://s1'', BrowserClose 2]
   \<and> trace (complete Basic cfg_one 1 env_ok (complete Basic cfg_one 0 env_ok st_over))
       = [ConnectOverCDP ''ws://s1'', BrowserClose 2, SdkStop ''s1'']
   \<and> waitQueue (complete Basic cfg_one 1 env_ok (complete Basic cfg_one 0 env_ok st_over)) = []
   \<and> waitQueue (complete Basic cfg_one 1 env_ok
        (complete Basic cfg_one 1 env_ok (complete Basic cfg_one 0 env_ok st_over))) = [3]"
proof -
  let ?s1 = "complete Basic cfg_one 0 env_ok st_over"
  let ?s2 = "complete Basic cfg_one 1 env_ok ?s1"
  let ?s3 = "complete Basic cfg_one 1 env_ok ?s2"
  have h1: "tasks st_over 0 = Some (AcquireCreating 3)"
    by (simp add: sample_defs sample2_defs)
  have h2: "snd (createSession_rest Basic cfg_one env_ok) = Inr (sess_fresh\<lparr>lastUsedAt := None\<rparr>)"
    by (simp add: sample_defs createSession_rest_def)
  have h3: "int (poolSize cfg_one) < totalCount st_over"
    by (simp add: sample_defs sample2_defs totalCount_def)
  have n: "nextTask st_over = 1" "nextRef st_over = 2"
    by (simp_all add: sample_defs sample2_defs)
  have q: "enableWaitQueue cfg_one" by (simp add: cfg_one_def)
  note th = acquire_over_capacity_after_create [OF h1 h2 h3, unfolded n]
  have a: "inUse ?s1 = inUse st_over" "available ?s1 = available st_over"
    "outcomes ?s1 = outcomes st_over" "waitQueue ?s1 = waitQueue st_over"
    "heap ?s1 2 = sess_fresh\<lparr>lastUsedAt := None\<rparr>"
    "trace ?s1 = trace st_over @ fst (createSession_rest Basic cfg_one env_ok) @ [BrowserClose 2]"
    and t1: "tasks ?s1 1 = Some (Closing 2 (AcquireClosing 3))"
    using th by blast+
  have b: "trace ?s2 = trace ?s1 @ [SdkStop (sessionId (heap ?s1 2))]"
    "waitQueue ?s2 = waitQueue ?s1"
    and t2: "tasks ?s2 1 = Some (Stopping (AcquireClosing 3))"
    using th t1 by blast+
  have "if enableWaitQueue cfg_one
      then waitQueue ?s3 = waitQueue ?s2 @ [3] \<and> outcomes ?s3 = outcomes ?s2
      else waitQueue ?s3 = waitQueue ?s2 \<and> outcomes ?s3 = outcomes ?s2 @ [Threw 3 PoolExhausted]"
    using th t2 by blast
  then have c: "waitQueue ?s3 = waitQueue ?s2 @ [3]" using q by simp
  have e: "inUse st_over = [1]" "available st_over = []" "outcomes st_over = []"
    "waitQueue st_over = []" "trace st_over = []"
    "fst (createSession_rest Basic cfg_one env_ok) = [ConnectOverCDP ''ws://s1'']"
    "sessionId (sess_fresh\<lparr>lastUsedAt := None\<rparr>) = ''s1''"
    by (simp_all add: sample_defs sample2_defs createSession_rest_def)
  have r1: "inUse ?s1 = [1]" "available ?s1 = []" "outcomes ?s1 = []"
    unfolding a e by (rule refl)+
  have r2: "trace ?s1 = [ConnectOverCDP ''ws://s1'', BrowserClose 2]"
    unfolding a e by simp
  have r3: "trace ?s2 = [ConnectOverCDP ''ws://s1'', BrowserClose 2, SdkStop ''s1'']"
    unfolding b a e by simp
  have r4: "waitQueue ?s2 = []"
    unfolding b a e by (rule refl)
  have r5: "waitQueue ?s3 = [3]"
    unfolding c b a e by simp
  show ?thesis
    by (intro conjI) (rule h1 h3 r1 r2 r3 r4 r5)+
qed

text \<open>
  The branch is reached from the empty pool in the enhanced build: the health check
  starts the replacement of the stale session, \<open>acquire\<close> discards that session and
  creates one on demand, the replacement arrives first and is pushed, and the session
  created on demand finds the pool over capacity. It is closed and stopped, and the
  caller is queued.
\<close>

lemma over_capacity_reached:
  "tasks (run Enhanced cfg_hc
      [Init, Complete 0 env_ok, InitSettled, HealthTick 400000, Acquire 5 400001,
       Complete 1 env_ok] init_state) 3 = Some (AcquireCreating 5)
   \<and> int (poolSize cfg_hc) < totalCount (run Enhanced cfg_hc
      [Init, Complete 0 env_ok, InitSettled, HealthTick 400000, Acquire 5 400001,
       Complete 1 env_ok] init_state)
   \<and> tasks (run Enhanced cfg_hc
      [Init, Complete 0 env_ok, InitSettled, HealthTick 400000, Acquire 5 400001,
       Complete 1 env_ok, Complete 3 env_ok] init_state) 5
     = Some (Closing 2 (AcquireClosing 5))
   \<and> waitQueue (run Enhanced cfg_hc
      [Init, Complete 0 env_ok, InitSettled, HealthTick 400000, Acquire 5 400001,
       Complete 1 env_ok, Complete 3 env_ok, Complete 5 env_ok, Complete 5 env_ok]
      init_state) = [5]
   \<and> available (run Enhanced cfg_hc
      [Init, Complete 0 env_ok, InitSettled, HealthTick 400000, Acquire 5 400001,
       Complete 1 env_ok, Complete 3 env_ok, Complete 5 env_ok, Complete 5 env_ok]
      init_state) = [1]"
  by (simp add: acquire_loop_eq sample3_defs sample_defs pool_defs Let_def)

subsection \<open>The capacity invariant\<close>

lemma totalCount_frame [simp]:
  "totalCount (closeSession w r s) = totalCount s"
  "totalCount (closeSession_stop tid w r s) = totalCount s"
  "totalCount (closeStarted w ds s) = totalCount s"
  "totalCount (suspend t s) = totalCount s"
  "totalCount (startCreate t s) = totalCount s"
  "totalCount (alloc x s) = totalCount s"
  "totalCount (incUse r s) = totalCount s"
  "totalCount (attachHandler cfg r s) = totalCount s"
  by (simp_all add: totalCount_def closeSession_def closeSession_stop_def suspend_def
      startCreate_def alloc_def incUse_def attachHandler_def)

lemma length_set_add: "length (set_add r xs) \<le> Suc (length xs)"
  by (simp add: set_add_def)

lemma length_set_delete: "length (set_delete r xs) \<le> length xs"
  by (simp add: set_delete_def)

lemma length_set_delete_mem: "r \<in> set xs \<Longrightarrow> Suc (length (set_delete r xs)) \<le> length xs"
  using length_removeAll_less [of r xs] by (simp add: set_delete_def)

lemma length_remove1_le: "length (remove1 r xs) \<le> length xs"
  by (simp add: length_remove1)

lemma within_addSession: "within cfg s \<Longrightarrow> within cfg (addSession cfg s)"
  by (simp add: within_def addSession_def Let_def)

lemma within_replenish: "within cfg s \<Longrightarrow> within cfg (replenish cfg s)"
  by (simp add: replenish_def within_addSession)

lemma within_init: "within cfg s \<Longrightarrow> within cfg ((addSession cfg ^^ n) s)"
  by (induction n) (simp_all add: within_addSession)

lemma within_handOff:
  "totalCount s + 1 \<le> N \<Longrightarrow> totalCount (handOff r s) \<le> N"
  using length_set_add [of r "inUse s"]
  by (simp add: handOff_def totalCount_def incUse_def)

lemma within_acquire: "within cfg s \<Longrightarrow> within cfg (acquire v cfg c now s)"
proof -
  assume w: "within cfg s"
  let ?bad = "\<lambda>r. \<not> isUsable v cfg now (heap s r)"
  let ?rest = "dropWhile ?bad (rev (available s))"
  have le: "length ?rest \<le> length (available s)"
    using length_dropWhile_le [of ?bad "rev (available s)"] by simp
  show ?thesis
  proof (cases ?rest)
    case Nil
    then have loop: "acquire_loop v cfg now s =
        (None, closeStarted Nobody (takeWhile ?bad (rev (available s)))
           (s\<lparr>available := []\<rparr>))"
      by (simp add: acquire_loop_eq Let_def del: dropWhile_eq_Nil_conv)
    show ?thesis using w
      by (simp add: acquire_def loop Let_def within_def acquire_tail_def)
         (simp add: totalCount_def)
  next
    case (Cons r rest')
    then have loop: "acquire_loop v cfg now s =
        (Some r, closeStarted Nobody (takeWhile ?bad (rev (available s)))
           (s\<lparr>available := rev rest'\<rparr>))"
      by (simp add: acquire_loop_eq Let_def)
    have "Suc (length rest') \<le> length (available s)" using le Cons by simp
    then show ?thesis using w length_set_add [of r "inUse s"]
      by (simp add: acquire_def loop within_def incUse_def totalCount_def)
  qed
qed

lemma within_release:
  assumes w: "within cfg s" and h: "r \<in> set (inUse s)"
  shows "within cfg (release v cfg r err now s)"
proof -
  let ?s1 = "s\<lparr>inUse := set_delete r (inUse s)\<rparr>"
  have lt: "totalCount ?s1 + 1 \<le> int (poolSize cfg)"
    using w length_set_delete_mem [OF h] by (simp add: within_def totalCount_def)
  show ?thesis
  proof (cases "err \<or> \<not> isUsable v cfg now (heap ?s1 r)")
    case True
    have "within cfg (closeSession Nobody r ?s1)" using lt by (simp add: within_def)
    then have "within cfg (replenish cfg (closeSession Nobody r ?s1))" by (rule within_replenish)
    then show ?thesis using True by (auto simp: release_def Let_def)
  next
    case False
    let ?s2 = "if v = Enhanced
      then ?s1\<lparr>heap := (heap ?s1)(r := (heap ?s1 r)\<lparr>lastUsedAt := Some now\<rparr>)\<rparr> else ?s1"
    have t2: "totalCount ?s2 + 1 \<le> int (poolSize cfg)"
      using lt by (simp add: totalCount_def)
    have a: "totalCount (handOff r ?s2) \<le> int (poolSize cfg)"
      using t2 by (rule within_handOff)
    have b: "totalCount (?s2\<lparr>available := available ?s2 @ [r]\<rparr>) \<le> int (poolSize cfg)"
      using t2 by (simp add: totalCount_def)
    show ?thesis using False a b
      by (simp add: release_def Let_def within_def)
  qed
qed

lemma within_release_closed:
  assumes w: "within cfg s" and c: "err \<or> \<not> isUsable v cfg now (heap s r)"
  shows "within cfg (release v cfg r err now s)"
proof -
  let ?s1 = "s\<lparr>inUse := set_delete r (inUse s)\<rparr>"
  have "within cfg (closeSession Nobody r ?s1)"
    using w length_set_delete [of r "inUse s"]
    by (simp add: within_def) (simp add: totalCount_def)
  then have "within cfg (replenish cfg (closeSession Nobody r ?s1))" by (rule within_replenish)
  then show ?thesis using c by (auto simp: release_def Let_def)
qed

lemma within_shutdown: "within cfg s \<Longrightarrow> within cfg (shutdown s)"
  by (simp add: within_def shutdown_def Let_def fold_closeSession totalCount_def)

lemma within_addSession_resume:
  assumes w: "within cfg s"
  shows "within cfg (addSession_resume cfg res s)"
proof (cases res)
  case (Inl err)
  then show ?thesis using w
    by (simp add: addSession_resume_def Let_def within_def totalCount_def)
next
  case (Inr x)
  let ?r = "nextRef s"
  let ?s1 = "attachHandler cfg ?r (alloc x s)"
  have t1: "totalCount ?s1 \<le> int (poolSize cfg)" using w by (simp add: within_def)
  have a: "totalCount (handOff ?r ?s1) \<le> int (poolSize cfg) + 1"
    by (rule within_handOff) (use t1 in simp)
  have b: "totalCount (?s1\<lparr>available := available ?s1 @ [?r]\<rparr>) \<le> int (poolSize cfg) + 1"
    using t1 by (simp add: totalCount_def)
  let ?s2 = "if enableWaitQueue cfg \<and> waitQueue ?s1 \<noteq> [] then handOff ?r ?s1
             else ?s1\<lparr>available := available ?s1 @ [?r]\<rparr>"
  have t2: "totalCount ?s2 \<le> int (poolSize cfg) + 1" using a b by simp
  let ?s3 = "if totalCount ?s2 < int (poolSize cfg) \<and> \<not> closed ?s2
             then ?s2\<lparr>timers := Suc (timers ?s2)\<rparr> else ?s2"
  have t3: "totalCount ?s3 \<le> int (poolSize cfg) + 1"
    using t2 by (simp add: totalCount_def)
  have fin: "within cfg (?s3\<lparr>creating := creating ?s3 - 1\<rparr>)"
    using t3 by (simp add: within_def totalCount_def)
  show ?thesis
  proof (cases "closed ?s1 \<or> totalCount ?s1 > int (poolSize cfg)")
    case True
    then show ?thesis using Inr t1
      by (auto simp: addSession_resume_def Let_def within_def)
  next
    case False
    then have "addSession_resume cfg res s = ?s3\<lparr>creating := creating ?s3 - 1\<rparr>"
      using Inr by (simp add: addSession_resume_def Let_def)
    with fin show ?thesis by simp
  qed
qed

lemma within_acquire_resume:
  assumes w: "within cfg s"
  shows "within cfg (acquire_resume cfg c res s)"
proof (cases res)
  case (Inl err)
  then show ?thesis using w
    by (simp add: acquire_resume_def within_def totalCount_def)
next
  case (Inr x)
  then show ?thesis using w length_set_add [of "nextRef s" "inUse (alloc x s)"]
    by (simp add: acquire_resume_def Let_def within_def)
       (simp add: totalCount_def incUse_def alloc_def closeSession_def suspend_def)
qed

lemma within_acquire_tail: "within cfg s \<Longrightarrow> within cfg (acquire_tail cfg c s)"
  by (simp add: within_def acquire_tail_def totalCount_def)

lemma within_complete:
  assumes w: "within cfg s" and p: "permitted v cfg s (Complete tid env)"
  shows "within cfg (complete v cfg tid env s)"
proof (cases "tasks s tid")
  case None
  then show ?thesis using w by (simp add: complete_def)
next
  case (Some t)
  let ?s0 = "s\<lparr>tasks := (tasks s)(tid := None)\<rparr>"
  let ?s1 = "?s0\<lparr>trace := trace ?s0 @ fst (createSession_rest v cfg env)\<rparr>"
  have w0: "within cfg ?s0" and w1: "within cfg ?s1"
    using w by (simp_all add: within_def totalCount_def)
  show ?thesis
  proof (cases t)
    case AddCreating
    with Some within_addSession_resume [OF w1] show ?thesis
      by (simp add: complete_def Let_def)
  next
    case (AcquireCreating c)
    with Some within_acquire_resume [OF w1] show ?thesis
      by (simp add: complete_def Let_def)
  next
    case (ReplaceCreating old)
    with Some p show ?thesis by simp
  next
    case (Closing r a)
    with Some w show ?thesis
      by (simp add: complete_def Let_def within_def)
  next
    case (Stopping a)
    show ?thesis
    proof (cases a)
      case Nobody
      with Some Stopping w0 show ?thesis by (simp add: complete_def Let_def)
    next
      case AddClosing
      with Some Stopping w show ?thesis
        by (simp add: complete_def Let_def within_def totalCount_def)
    next
      case (AcquireClosing c)
      with Some Stopping within_acquire_tail [OF w0] show ?thesis
        by (simp add: complete_def Let_def)
    qed
  qed
qed

lemma within_fold_evict: "within cfg s \<Longrightarrow> within cfg (fold evict xs s)"
proof (induction xs arbitrary: s)
  case Nil
  then show ?case by simp
next
  case (Cons x xs)
  have "within cfg (evict x s)"
    using Cons.prems length_remove1_le [of x "available s"]
    by (simp add: evict_def within_def) (simp add: totalCount_def)
  then show ?case by (simp add: Cons.IH)
qed

lemma within_disconnect: "within cfg s \<Longrightarrow> within cfg (disconnect cfg r s)"
proof -
  assume w: "within cfg s"
  let ?s1 = "s\<lparr>heap := (heap s)(r := (heap s r)\<lparr>connected := False\<rparr>)\<rparr>"
  have w1: "within cfg ?s1" using w by (simp add: within_def totalCount_def)
  have "within cfg (closeSession Nobody r
        (?s1\<lparr>available := remove1 r (available ?s1), inUse := set_delete r (inUse ?s1)\<rparr>))"
    using w length_remove1_le [of r "available s"] length_set_delete [of r "inUse s"]
    by (simp add: within_def) (simp add: totalCount_def)
  then have "within cfg (onDisconnected cfg r ?s1)"
    unfolding onDisconnected_def by (rule within_replenish)
  with w1 show ?thesis by (simp add: disconnect_def Let_def)
qed

lemma within_step:
  assumes w: "within cfg s" and p: "permitted v cfg s e"
  shows "within cfg (step v cfg e s)"
proof (cases e)
  case Init
  then show ?thesis using w by (simp add: init_def within_init)
next
  case InitSettled
  then show ?thesis using w
    by (simp add: init_settled_def startHealthCheck_def within_def totalCount_def)
next
  case (Acquire c now)
  then show ?thesis using w by (simp add: within_acquire)
next
  case (Release r err now)
  then have "r \<in> set (inUse s) \<or> (err \<or> \<not> isUsable v cfg now (heap s r))"
    using p by simp
  then have "within cfg (release v cfg r err now s)"
    using w within_release within_release_closed by blast
  then show ?thesis using Release by simp
next
  case Shutdown
  then show ?thesis using w by (simp add: within_shutdown)
next
  case (Complete tid env)
  then show ?thesis using w p within_complete by simp
next
  case Timer
  have "within cfg (s\<lparr>timers := timers s - 1\<rparr>)"
    using w by (simp add: within_def totalCount_def)
  then have "within cfg (addSession cfg (s\<lparr>timers := timers s - 1\<rparr>))"
    by (rule within_addSession)
  then show ?thesis using Timer w by (simp add: timer_def)
next
  case (Disconnect r)
  then show ?thesis using w by (simp add: within_disconnect)
next
  case (HealthTick now)
  then have b: "v = Basic" using p by simp
  have "within cfg (replenish cfg (fold evict
      (filter (\<lambda>r. \<not> isUsable v cfg now (heap s r)) (available s)) s))"
    using w by (intro within_replenish within_fold_evict)
  then show ?thesis using HealthTick w b
    by (simp add: healthTick_def performHealthCheck_def Let_def)
qed

lemma within_run:
  "within cfg s \<Longrightarrow> admissible v cfg evs s \<Longrightarrow> within cfg (run v cfg evs s)"
proof (induction evs arbitrary: s)
  case Nil
  then show ?case by simp
next
  case (Cons e es)
  from Cons.prems have "within cfg (step v cfg e s)"
    by (simp add: within_step)
  with Cons show ?case by simp
qed

lemma admissible_take: "admissible v cfg evs s \<Longrightarrow> admissible v cfg (take n evs) s"
proof (induction evs arbitrary: s n)
  case Nil
  then show ?case by simp
next
  case (Cons e es)
  then show ?case by (cases n) simp_all
qed

text \<open>
  C1, as the code has it. In every run from the empty pool whose events are permitted
  (\<open>init\<close>; \<open>acquire\<close>; \<open>release\<close> of a session that is in \<open>inUse\<close>, or with the
  error flag, or of an unusable session; \<open>shutdown\<close>; the resumption of suspended calls
  with any answer of the collaborators; timers; disconnections; the health sweep of the
  TypeScript source), after every step,
  \<open>available.length + inUse.size + creating \<le> size\<close>. This holds at every point
  between two steps, not only when no creation is in flight.
\<close>

theorem capacity_invariant:
  assumes "admissible v cfg evs init_state"
  shows "totalCount (run v cfg (take n evs) init_state) \<le> int (poolSize cfg)"
proof -
  have "within cfg init_state"
    by (simp add: within_def totalCount_def init_state_def)
  moreover have "admissible v cfg (take n evs) init_state"
    using assms by (rule admissible_take)
  ultimately have "within cfg (run v cfg (take n evs) init_state)"
    by (rule within_run)
  then show ?thesis by (simp add: within_def)
qed

theorem capacity_invariant_witness:
  "admissible Basic cfg_one [Init, Complete 0 env_ok, Acquire 7 1, Release 0 False 2] init_state
   \<and> totalCount (run Basic cfg_one [Init, Complete 0 env_ok, Acquire 7 1, Release 0 False 2]
        init_state) \<le> int (poolSize cfg_one)"
proof -
  have a: "admissible Basic cfg_one
      [Init, Complete 0 env_ok, Acquire 7 1, Release 0 False 2] init_state"
    by (simp add: acquire_loop_eq sample_defs pool_defs Let_def)
  from capacity_invariant [OF a, of 4] a show ?thesis by simp
qed

text \<open>
  C1 as stated fails: nothing in \<open>release\<close> checks that the pool holds the session. A
  pool of size one is initialised, its session is acquired and then released twice. The
  second \<open>release\<close> finds nothing to delete from \<open>inUse\<close>, finds the session usable
  and pushes it again: \<open>available\<close> holds it twice, with no creation in flight.
\<close>

theorem double_release_exceeds_capacity:
  "\<not> totalCount (run Basic cfg_one
          [Init, Complete 0 env_ok, Acquire 7 1, Release 0 False 2, Release 0 False 3]
          init_state) \<le> int (poolSize cfg_one)
   \<and> available (run Basic cfg_one
          [Init, Complete 0 env_ok, Acquire 7 1, Release 0 False 2, Release 0 False 3]
          init_state) = [0, 0]
   \<and> creating (run Basic cfg_one
          [Init, Complete 0 env_ok, Acquire 7 1, Release 0 False 2, Release 0 False 3]
          init_state) = 0"
  by (simp add: acquire_loop_eq sample_defs pool_defs Let_def)

text \<open>
  The replacement of the enhanced build is outside the invariant: \<open>replaceSession\<close>
  pushes its new session without the capacity check that \<open>addSession\<close> and
  \<open>acquire\<close> make after their creation. When \<open>acquire\<close> discards the stale session
  and creates one on demand while the replacement is in flight, a pool of size one ends
  with two sessions.
\<close>

lemma health_replacement_overshoots:
  "totalCount (run Enhanced cfg_hc
      [Init, Complete 0 env_ok, InitSettled, HealthTick 400000, Acquire 5 400001,
       Complete 3 env_ok, Complete 1 env_ok] init_state) = 2
   \<and> creating (run Enhanced cfg_hc
      [Init, Complete 0 env_ok, InitSettled, HealthTick 400000, Acquire 5 400001,
       Complete 3 env_ok, Complete 1 env_ok] init_state) = 0
   \<and> poolSize cfg_hc = 1"
  by (simp add: acquire_loop_eq sample3_defs sample_defs pool_defs Let_def)

subsection \<open>Health check: replacement\<close>

lemma replaceSession_fields [simp]:
  "available (replaceSession r s) = available s"
  "inUse (replaceSession r s) = inUse s"
  "creating (replaceSession r s) = creating s"
  "closed (replaceSession r s) = closed s"
  "heap (replaceSession r s) = heap s"
  "nextRef (replaceSession r s) = nextRef s"
  by (simp_all add: replaceSession_def startCreate_def suspend_def)

lemma fold_replaceSession_fields [simp]:
  "available (fold replaceSession xs s) = available s"
  "inUse (fold replaceSession xs s) = inUse s"
  "creating (fold replaceSession xs s) = creating s"
  "closed (fold replaceSession xs s) = closed s"
  "heap (fold replaceSession xs s) = heap s"
  "nextRef (fold replaceSession xs s) = nextRef s"
  by (induction xs arbitrary: s) simp_all

lemma fold_replaceSession_trace:
  "\<not> closed s \<Longrightarrow>
    trace (fold replaceSession xs s) = trace s @ replicate (length xs) SdkCreate
    \<and> nextTask (fold replaceSession xs s) = nextTask s + length xs"
proof (induction xs arbitrary: s)
  case Nil
  show ?case by simp
next
  case (Cons x xs)
  have "\<not> closed (replaceSession x s)" using Cons.prems by simp
  from Cons.IH [OF this] show ?case using Cons.prems
    by (simp add: replaceSession_def startCreate_def suspend_def replicate_append_same)
qed

lemma fold_replaceSession_older:
  "j < nextTask s \<Longrightarrow> tasks (fold replaceSession xs s) j = tasks s j"
proof (induction xs arbitrary: s)
  case Nil
  show ?case by simp
next
  case (Cons x xs)
  have "j < nextTask (replaceSession x s)"
    using Cons.prems by (simp add: replaceSession_def startCreate_def suspend_def)
  from Cons.IH [OF this] show ?case using Cons.prems
    by (simp add: replaceSession_def startCreate_def suspend_def)
qed

lemma fold_replaceSession_tasks:
  "\<not> closed s \<Longrightarrow> i < length xs \<Longrightarrow>
    tasks (fold replaceSession xs s) (nextTask s + i) = Some (ReplaceCreating (xs ! i))"
proof (induction xs arbitrary: s i)
  case Nil
  then show ?case by simp
next
  case (Cons x xs)
  let ?s1 = "replaceSession x s"
  have nc: "\<not> closed ?s1" using Cons.prems by simp
  have nt: "nextTask ?s1 = Suc (nextTask s)" and t0: "tasks ?s1 (nextTask s) = Some (ReplaceCreating x)"
    using Cons.prems by (simp_all add: replaceSession_def startCreate_def suspend_def)
  show ?case
  proof (cases i)
    case 0
    have "tasks (fold replaceSession xs ?s1) (nextTask s) = tasks ?s1 (nextTask s)"
      by (rule fold_replaceSession_older) (simp add: nt)
    then show ?thesis using 0 t0 by simp
  next
    case (Suc k)
    then have "k < length xs" using Cons.prems by simp
    from Cons.IH [OF nc this] show ?thesis using Suc by (simp add: nt)
  qed
qed

lemma replenish_adds:
  "available (replenish cfg s) = available s \<and> inUse (replenish cfg s) = inUse s
   \<and> (\<forall>j < nextTask s. tasks (replenish cfg s) j = tasks s j)
   \<and> (trace (replenish cfg s) = trace s \<or> trace (replenish cfg s) = trace s @ [SdkCreate])"
  by (simp add: replenish_def addSession_def Let_def startCreate_def suspend_def)

text \<open>
  C4, as the code has it, for the enhanced build. The sweep of an open pool leaves
  \<open>available\<close> and \<open>inUse\<close> as they are, starts one \<open>replaceSession\<close> for each
  unusable session of \<open>available\<close>, in order, and issues nothing but requests for new
  sessions. When the creation of a replacement succeeds, the old session is removed from
  \<open>available\<close> if it is still there, the new one is pushed and \<open>closeSession\<close> is
  called for the old one: \<open>available\<close> is not shorter than before. When the creation
  fails, the old session is removed all the same, and closed if it was still there.
\<close>

theorem health_check_replaces_before_retiring:
  "(\<not> closed s \<longrightarrow>
      available (performHealthCheck Enhanced cfg now s) = available s
    \<and> inUse (performHealthCheck Enhanced cfg now s) = inUse s
    \<and> (\<forall>i < length (filter (\<lambda>r. \<not> isUsable Enhanced cfg now (heap s r)) (available s)).
          tasks (performHealthCheck Enhanced cfg now s) (nextTask s + i)
            = Some (ReplaceCreating
                (filter (\<lambda>r. \<not> isUsable Enhanced cfg now (heap s r)) (available s) ! i)))
    \<and> (\<exists>m. trace (performHealthCheck Enhanced cfg now s) = trace s @ replicate m SdkCreate))
   \<and> (tasks s tid = Some (ReplaceCreating old)
        \<and> snd (createSession_rest Enhanced cfg env) = Inr x \<longrightarrow>
      available (complete Enhanced cfg tid env s) = remove1 old (available s) @ [nextRef s]
    \<and> length (available s) \<le> length (available (complete Enhanced cfg tid env s))
    \<and> trace (complete Enhanced cfg tid env s)
        = trace s @ fst (createSession_rest Enhanced cfg env) @ [BrowserClose old]
    \<and> tasks (complete Enhanced cfg tid env s) (nextTask s) = Some (Closing old Nobody))
   \<and> (tasks s tid = Some (ReplaceCreating old)
        \<and> snd (createSession_rest Enhanced cfg env) = Inl e \<longrightarrow>
      available (complete Enhanced cfg tid env s) = remove1 old (available s)
    \<and> trace (complete Enhanced cfg tid env s)
        = trace s @ fst (createSession_rest Enhanced cfg env)
            @ (if old \<in> set (available s) then [BrowserClose old] else [])
    \<and> (old \<in> set (available s) \<longrightarrow>
          tasks (complete Enhanced cfg tid env s) (nextTask s) = Some (Closing old Nobody)))"
proof (intro conjI impI)
  let ?stale = "filter (\<lambda>r. \<not> isUsable Enhanced cfg now (heap s r)) (available s)"
  let ?s1 = "fold replaceSession ?stale s"
  have phc: "performHealthCheck Enhanced cfg now s = replenish cfg ?s1"
    by (simp add: performHealthCheck_def Let_def)
  note ra = replenish_adds [of cfg ?s1]
  {
    assume nc: "\<not> closed s"
    note ft = fold_replaceSession_trace [OF nc, of ?stale]
    show "available (performHealthCheck Enhanced cfg now s) = available s"
      and "inUse (performHealthCheck Enhanced cfg now s) = inUse s"
      using ra by (simp_all add: phc)
    show "\<forall>i < length ?stale.
        tasks (performHealthCheck Enhanced cfg now s) (nextTask s + i)
          = Some (ReplaceCreating (?stale ! i))"
    proof (intro allI impI)
      fix i assume i: "i < length ?stale"
      then have "nextTask s + i < nextTask ?s1" using ft by simp
      with ra have "tasks (replenish cfg ?s1) (nextTask s + i) = tasks ?s1 (nextTask s + i)"
        by blast
      then show "tasks (performHealthCheck Enhanced cfg now s) (nextTask s + i)
          = Some (ReplaceCreating (?stale ! i))"
        using fold_replaceSession_tasks [OF nc i] by (simp add: phc)
    qed
    from ra have "trace (replenish cfg ?s1) = trace ?s1
        \<or> trace (replenish cfg ?s1) = trace ?s1 @ [SdkCreate]" by blast
    then show "\<exists>m. trace (performHealthCheck Enhanced cfg now s) = trace s @ replicate m SdkCreate"
    proof
      assume "trace (replenish cfg ?s1) = trace ?s1"
      then have "trace (performHealthCheck Enhanced cfg now s)
          = trace s @ replicate (length ?stale) SdkCreate"
        using ft by (simp add: phc)
      then show ?thesis ..
    next
      assume "trace (replenish cfg ?s1) = trace ?s1 @ [SdkCreate]"
      then have "trace (performHealthCheck Enhanced cfg now s)
          = trace s @ replicate (Suc (length ?stale)) SdkCreate"
        using ft by (simp add: phc replicate_append_same)
      then show ?thesis ..
    qed
  }
  {
    assume a: "tasks s tid = Some (ReplaceCreating old)
        \<and> snd (createSession_rest Enhanced cfg env) = Inr x"
    then show av: "available (complete Enhanced cfg tid env s)
        = remove1 old (available s) @ [nextRef s]"
      by (simp add: complete_def replaceSession_resume_def Let_def closeSession_def
          suspend_def attachHandler_def alloc_def)
    show "length (available s) \<le> length (available (complete Enhanced cfg tid env s))"
      unfolding av using length_pos_if_in_set [of old "available s"]
      by (auto simp: length_remove1)
    from a show "trace (complete Enhanced cfg tid env s)
        = trace s @ fst (createSession_rest Enhanced cfg env) @ [BrowserClose old]"
      and "tasks (complete Enhanced cfg tid env s) (nextTask s) = Some (Closing old Nobody)"
      by (simp_all add: complete_def replaceSession_resume_def Let_def closeSession_def
          suspend_def attachHandler_def alloc_def)
  }
  {
    assume a: "tasks s tid = Some (ReplaceCreating old)
        \<and> snd (createSession_rest Enhanced cfg env) = Inl e"
    then show "available (complete Enhanced cfg tid env s) = remove1 old (available s)"
      by (simp add: complete_def replaceSession_resume_def Let_def closeSession_def
          suspend_def remove1_idem)
    from a show "trace (complete Enhanced cfg tid env s)
        = trace s @ fst (createSession_rest Enhanced cfg env)
            @ (if old \<in> set (available s) then [BrowserClose old] else [])"
      by (simp add: complete_def replaceSession_resume_def Let_def closeSession_def
          suspend_def)
    {
      assume "old \<in> set (available s)"
      with a show "tasks (complete Enhanced cfg tid env s) (nextTask s)
          = Some (Closing old Nobody)"
        by (simp add: complete_def replaceSession_resume_def Let_def closeSession_def
            suspend_def)
    }
  }
qed

theorem health_check_replaces_before_retiring_witness:
  "\<not> closed st_stale
   \<and> available (performHealthCheck Enhanced cfg_hc 5 st_stale) = [1, 2]
   \<and> tasks (performHealthCheck Enhanced cfg_hc 5 st_stale) 0 = Some (ReplaceCreating 1)
   \<and> tasks st_replacing 0 = Some (ReplaceCreating 1)
   \<and> available (complete Enhanced cfg_hc 0 env_ok st_replacing) = [2, 3]
   \<and> trace (complete Enhanced cfg_hc 0 env_ok st_replacing)
       = [ConnectOverCDP ''ws://s1'', BrowserClose 1]
   \<and> tasks (complete Enhanced cfg_hc 0 env_ok st_replacing) 1 = Some (Closing 1 Nobody)
   \<and> available (complete Enhanced cfg_hc 0 env_noconnect st_replacing) = [2]"
proof -
  have nc: "\<not> closed st_stale" by (simp add: sample3_defs sample_defs)
  have st: "filter (\<lambda>r. \<not> isUsable Enhanced cfg_hc 5 (heap st_stale r)) (available st_stale) = [1]"
    by (simp add: sample3_defs sample_defs isUsable_def)
  have t: "tasks st_replacing 0 = Some (ReplaceCreating 1)"
    by (simp add: sample3_defs sample_defs)
  have ok: "snd (createSession_rest Enhanced cfg_hc env_ok) = Inr sess_fresh"
    and fk: "fst (createSession_rest Enhanced cfg_hc env_ok) = [ConnectOverCDP ''ws://s1'']"
    by (simp_all add: sample3_defs sample_defs createSession_rest_def)
  have no: "snd (createSession_rest Enhanced cfg_hc env_noconnect) = Inl ConnectError"
    by (simp add: sample3_defs sample_defs createSession_rest_def)
  have sw: "available (performHealthCheck Enhanced cfg_hc 5 st_stale) = available st_stale
      \<and> tasks (performHealthCheck Enhanced cfg_hc 5 st_stale) (nextTask st_stale + 0)
          = Some (ReplaceCreating ([1] ! 0))"
    using health_check_replaces_before_retiring
      [where s = st_stale and cfg = cfg_hc and now = 5 and tid = 0 and old = 0
         and env = env_ok and x = sess_fresh and e = ConnectError] nc st
    by simp
  have su: "available (complete Enhanced cfg_hc 0 env_ok st_replacing)
        = remove1 1 (available st_replacing) @ [nextRef st_replacing]
      \<and> trace (complete Enhanced cfg_hc 0 env_ok st_replacing)
        = trace st_replacing @ fst (createSession_rest Enhanced cfg_hc env_ok)
            @ [BrowserClose 1]
      \<and> tasks (complete Enhanced cfg_hc 0 env_ok st_replacing) (nextTask st_replacing)
        = Some (Closing 1 Nobody)"
    using health_check_replaces_before_retiring
      [where s = st_replacing and cfg = cfg_hc and now = 5 and tid = 0 and old = 1
         and env = env_ok and x = sess_fresh and e = ConnectError] t ok
    by blast
  have fa: "available (complete Enhanced cfg_hc 0 env_noconnect st_replacing)
        = remove1 1 (available st_replacing)"
    using health_check_replaces_before_retiring
      [where s = st_replacing and cfg = cfg_hc and now = 5 and tid = 0 and old = 1
         and env = env_noconnect and x = sess_fresh and e = ConnectError] t no
    by simp
  have a1: "available (performHealthCheck Enhanced cfg_hc 5 st_stale) = [1, 2]"
  proof -
    have "available (performHealthCheck Enhanced cfg_hc 5 st_stale) = available st_stale"
      using sw by (rule conjunct1)
    also have "\<dots> = [1, 2]" by (simp add: sample3_defs sample_defs)
    finally show ?thesis .
  qed
  have a2: "tasks (performHealthCheck Enhanced cfg_hc 5 st_stale) 0 = Some (ReplaceCreating 1)"
  proof -
    have "nextTask st_stale + 0 = 0" by (simp add: sample3_defs sample_defs)
    with sw [THEN conjunct2] show ?thesis by simp
  qed
  have a3: "available (complete Enhanced cfg_hc 0 env_ok st_replacing) = [2, 3]"
  proof -
    have "available (complete Enhanced cfg_hc 0 env_ok st_replacing)
        = remove1 1 (available st_replacing) @ [nextRef st_replacing]"
      using su by (rule conjunct1)
    also have "\<dots> = [2, 3]" by (simp add: sample3_defs sample_defs)
    finally show ?thesis .
  qed
  have a4: "trace (complete Enhanced cfg_hc 0 env_ok st_replacing)
       = [ConnectOverCDP ''ws://s1'', BrowserClose 1]"
  proof -
    have "trace (complete Enhanced cfg_hc 0 env_ok st_replacing)
        = trace st_replacing @ fst (createSession_rest Enhanced cfg_hc env_ok)
            @ [BrowserClose 1]"
      using su by blast
    also have "\<dots> = [ConnectOverCDP ''ws://s1'', BrowserClose 1]"
      by (simp add: fk) (simp add: sample3_defs sample_defs)
    finally show ?thesis .
  qed
  have a6: "tasks (complete Enhanced cfg_hc 0 env_ok st_replacing) 1 = Some (Closing 1 Nobody)"
  proof -
    have "nextTask st_replacing = 1" by (simp add: sample3_defs sample_defs)
    with su show ?thesis by metis
  qed
  have a5: "available (complete Enhanced cfg_hc 0 env_noconnect st_replacing) = [2]"
  proof -
    note fa
    also have "remove1 1 (available st_replacing) = [2]"
      by (simp add: sample3_defs sample_defs)
    finally show ?thesis .
  qed
  show ?thesis
    by (intro conjI) (rule nc a1 a2 t a3 a4 a6 a5)+
qed

text \<open>
  C4 as stated fails on the TypeScript source, whose \<open>performHealthCheck\<close> removes
  and closes first: a pool of size one with a session older than \<open>maxAgeMs\<close>. The sweep
  empties \<open>available\<close> and calls \<open>browser.close()\<close> for the session, and only then
  requests a new one; no replacement exists yet (\<open>nextRef\<close> is still one).
\<close>

theorem health_check_Basic_retires_first:
  "available (run Basic cfg_hc [Init, Complete 0 env_ok, InitSettled] init_state) = [0]
   \<and> available (run Basic cfg_hc [Init, Complete 0 env_ok, InitSettled, HealthTick 400000]
        init_state) = []
   \<and> nextRef (run Basic cfg_hc [Init, Complete 0 env_ok, InitSettled, HealthTick 400000]
        init_state) = 1
   \<and> trace (run Basic cfg_hc [Init, Complete 0 env_ok, InitSettled, HealthTick 400000]
        init_state)
       = [SdkCreate, ConnectOverCDP ''ws://s1'', BrowserClose 0, SdkCreate]"
  by (simp add: sample3_defs sample_defs pool_defs Let_def)

subsection \<open>The wait queue is served first in, first out\<close>

lemma dequeued_append: "dequeued (xs @ ys) = dequeued xs @ dequeued ys"
  by (induction xs rule: dequeued.induct) simp_all

lemma dequeued_rejected: "dequeued (map (\<lambda>c. Rejected c e) cs) = cs"
  by (induction cs) simp_all

lemma served_append: "served (xs @ ys) = served xs @ served ys"
  by (induction xs rule: served.induct) simp_all

lemma subseq_served_dequeued: "subseq (served os) (dequeued os)"
  by (induction os rule: served.induct) auto

lemma queue_ext_refl: "queue_ext s s"
  by (simp add: queue_ext_def)

lemma queue_ext_trans:
  assumes "queue_ext s s'" and "queue_ext s' s''"
  shows "queue_ext s s''"
proof -
  from assms(1) obtain m1 n1 where
    a: "outcomes s' = outcomes s @ m1" "dequeued m1 @ waitQueue s' = waitQueue s @ n1"
    by (auto simp: queue_ext_def)
  from assms(2) obtain m2 n2 where
    b: "outcomes s'' = outcomes s' @ m2" "dequeued m2 @ waitQueue s'' = waitQueue s' @ n2"
    by (auto simp: queue_ext_def)
  have "outcomes s'' = outcomes s @ (m1 @ m2)"
    using a(1) b(1) by simp
  moreover have "dequeued (m1 @ m2) @ waitQueue s'' = waitQueue s @ (n1 @ n2)"
    unfolding dequeued_append using a(2) b(2) by (metis append.assoc)
  ultimately show ?thesis
    unfolding queue_ext_def by blast
qed

lemma queue_ext_same:
  "outcomes s' = outcomes s \<Longrightarrow> waitQueue s' = waitQueue s \<Longrightarrow> queue_ext s s'"
  by (simp add: queue_ext_def)

lemma queue_ext_park:
  "outcomes s' = outcomes s \<Longrightarrow> waitQueue s' = waitQueue s @ [c] \<Longrightarrow> queue_ext s s'"
  by (simp add: queue_ext_def)

lemma queue_ext_plain:
  assumes "outcomes s' = outcomes s @ [Returned c r] \<or> outcomes s' = outcomes s @ [Threw c e]"
    and "waitQueue s' = waitQueue s"
  shows "queue_ext s s'"
proof -
  from assms(1) obtain more where
    m: "outcomes s' = outcomes s @ more" "dequeued more = []"
    by auto
  then have "dequeued more @ waitQueue s' = waitQueue s @ []"
    using assms(2) by simp
  with m(1) show ?thesis unfolding queue_ext_def by blast
qed

lemma queue_ext_head:
  assumes "waitQueue s \<noteq> []" and "waitQueue s' = tl (waitQueue s)"
    and "outcomes s' = outcomes s @ [Resolved (hd (waitQueue s)) r]
       \<or> outcomes s' = outcomes s @ [Rejected (hd (waitQueue s)) e]"
  shows "queue_ext s s'"
proof -
  from assms(3) obtain more where
    m: "outcomes s' = outcomes s @ more" "dequeued more = [hd (waitQueue s)]"
    by auto
  then have "dequeued more @ waitQueue s' = waitQueue s @ []"
    using assms(1,2) by simp
  with m(1) show ?thesis unfolding queue_ext_def by blast
qed

text \<open>The operations that touch neither the queue nor the outcomes.\<close>

lemma frame_queue [simp]:
  "outcomes (closeSession w r s) = outcomes s" "waitQueue (closeSession w r s) = waitQueue s"
  "outcomes (closeSession_stop tid w r s) = outcomes s"
  "waitQueue (closeSession_stop tid w r s) = waitQueue s"
  "outcomes (suspend t s) = outcomes s" "waitQueue (suspend t s) = waitQueue s"
  "outcomes (startCreate t s) = outcomes s" "waitQueue (startCreate t s) = waitQueue s"
  "outcomes (alloc x s) = outcomes s" "waitQueue (alloc x s) = waitQueue s"
  "outcomes (incUse r s) = outcomes s" "waitQueue (incUse r s) = waitQueue s"
  "outcomes (attachHandler cfg r s) = outcomes s" "waitQueue (attachHandler cfg r s) = waitQueue s"
  "outcomes (addSession cfg s) = outcomes s" "waitQueue (addSession cfg s) = waitQueue s"
  "outcomes (replenish cfg s) = outcomes s" "waitQueue (replenish cfg s) = waitQueue s"
  "outcomes (evict r s) = outcomes s" "waitQueue (evict r s) = waitQueue s"
  "outcomes (replaceSession r s) = outcomes s" "waitQueue (replaceSession r s) = waitQueue s"
  by (simp_all add: closeSession_def closeSession_stop_def suspend_def startCreate_def
      alloc_def incUse_def attachHandler_def addSession_def replenish_def evict_def
      replaceSession_def Let_def)

lemma frame_queue_fold [simp]:
  "outcomes (fold evict xs s) = outcomes s" "waitQueue (fold evict xs s) = waitQueue s"
  "outcomes (fold replaceSession xs s) = outcomes s"
  "waitQueue (fold replaceSession xs s) = waitQueue s"
  by (induction xs arbitrary: s) simp_all

lemma frame_queue_init [simp]:
  "outcomes ((addSession cfg ^^ n) s) = outcomes s"
  "waitQueue ((addSession cfg ^^ n) s) = waitQueue s"
  by (induction n) simp_all

lemma queue_ext_handOff: "waitQueue s \<noteq> [] \<Longrightarrow> queue_ext s (handOff r s)"
  by (rule queue_ext_head [where r = r and e = PoolExhausted]) (simp_all add: handOff_def)

lemma queue_ext_acquire_tail: "queue_ext s (acquire_tail cfg c s)"
proof (cases "enableWaitQueue cfg")
  case True
  then show ?thesis by (intro queue_ext_park [where c = c]) (simp_all add: acquire_tail_def)
next
  case False
  then show ?thesis
    by (intro queue_ext_plain [where c = c and e = PoolExhausted and r = 0])
       (simp_all add: acquire_tail_def)
qed

lemma queue_ext_acquire: "queue_ext s (acquire v cfg c now s)"
proof -
  obtain found s1 where loop: "acquire_loop v cfg now s = (found, s1)"
    by (cases "acquire_loop v cfg now s")
  then have same: "outcomes s1 = outcomes s" "waitQueue s1 = waitQueue s"
    by (auto simp: acquire_loop_eq Let_def)
  show ?thesis
  proof (cases found)
    case (Some r)
    then show ?thesis
      by (intro queue_ext_plain [where c = c and r = r and e = PoolExhausted])
         (simp_all add: acquire_def loop same incUse_def)
  next
    case None
    have "queue_ext s s1" using same by (rule queue_ext_same)
    moreover have "queue_ext s1 (acquire v cfg c now s)"
    proof (cases "totalCount (s1\<lparr>creating := creating s1 + 1\<rparr>) \<le> int (poolSize cfg)")
      case True
      then show ?thesis
        by (intro queue_ext_same) (simp_all add: acquire_def loop None Let_def)
    next
      case False
      have "queue_ext s1 (acquire_tail cfg c (s1\<lparr>creating := creating s1 + 1 - 1\<rparr>))"
        by (rule queue_ext_trans [OF _ queue_ext_acquire_tail]) (simp add: queue_ext_same)
      then show ?thesis using False
        by (simp add: acquire_def loop None Let_def)
    qed
    ultimately show ?thesis by (rule queue_ext_trans)
  qed
qed

lemma queue_ext_release: "queue_ext s (release v cfg r err now s)"
proof -
  let ?s1 = "s\<lparr>inUse := set_delete r (inUse s)\<rparr>"
  let ?s2 = "if v = Enhanced
      then ?s1\<lparr>heap := (heap ?s1)(r := (heap ?s1 r)\<lparr>lastUsedAt := Some now\<rparr>)\<rparr> else ?s1"
  have s2: "queue_ext s ?s2" by (rule queue_ext_same) simp_all
  show ?thesis
  proof (cases "err \<or> \<not> isUsable v cfg now (heap ?s1 r)")
    case True
    then show ?thesis by (intro queue_ext_same) (auto simp: release_def Let_def)
  next
    case False
    show ?thesis
    proof (cases "enableWaitQueue cfg \<and> waitQueue ?s2 \<noteq> []")
      case True
      then have "queue_ext ?s2 (handOff r ?s2)" by (intro queue_ext_handOff) simp
      with s2 have "queue_ext s (handOff r ?s2)" by (rule queue_ext_trans)
      then show ?thesis using True False by (simp add: release_def Let_def)
    next
      case w: False
      then show ?thesis using False
        by (intro queue_ext_same) (auto simp: release_def Let_def)
    qed
  qed
qed

lemma queue_ext_shutdown: "queue_ext s (shutdown s)"
  unfolding queue_ext_def
  by (intro exI [of _ "map (\<lambda>c. Rejected c PoolShuttingDown) (waitQueue s)"] exI [of _ "[]"])
     (simp add: shutdown_def Let_def fold_closeSession dequeued_rejected)

lemma queue_ext_addSession_resume: "queue_ext s (addSession_resume cfg res s)"
proof (cases res)
  case (Inr x)
  let ?s1 = "attachHandler cfg (nextRef s) (alloc x s)"
  have s1: "queue_ext s ?s1" by (rule queue_ext_same) simp_all
  show ?thesis
  proof (cases "closed ?s1 \<or> totalCount ?s1 > int (poolSize cfg)")
    case True
    then show ?thesis using Inr
      by (intro queue_ext_same) (auto simp: addSession_resume_def Let_def)
  next
    case False
    show ?thesis
    proof (cases "enableWaitQueue cfg \<and> waitQueue ?s1 \<noteq> []")
      case True
      then have "queue_ext ?s1 (handOff (nextRef s) ?s1)" by (intro queue_ext_handOff) simp
      with s1 have h: "queue_ext s (handOff (nextRef s) ?s1)" by (rule queue_ext_trans)
      have "queue_ext (handOff (nextRef s) ?s1) (addSession_resume cfg res s)"
        using True False Inr
        by (intro queue_ext_same) (auto simp: addSession_resume_def Let_def)
      with h show ?thesis by (rule queue_ext_trans)
    next
      case w: False
      then show ?thesis using False Inr
        by (intro queue_ext_same) (auto simp: addSession_resume_def Let_def)
    qed
  qed
next
  case (Inl err)
  show ?thesis
  proof (cases "enableWaitQueue cfg \<and> waitQueue s \<noteq> []")
    case True
    then show ?thesis using Inl
      by (intro queue_ext_head [where e = err and r = 0])
         (auto simp: addSession_resume_def Let_def)
  next
    case False
    then show ?thesis using Inl
      by (intro queue_ext_same) (auto simp: addSession_resume_def Let_def)
  qed
qed

lemma queue_ext_acquire_resume: "queue_ext s (acquire_resume cfg c res s)"
proof (cases res)
  case (Inl err)
  then show ?thesis
    by (intro queue_ext_plain [where c = c and e = err and r = 0])
       (simp_all add: acquire_resume_def)
next
  case (Inr x)
  show ?thesis
  proof (cases "totalCount (alloc x s) > int (poolSize cfg)")
    case True
    then show ?thesis using Inr
      by (intro queue_ext_same) (simp_all add: acquire_resume_def Let_def)
  next
    case False
    then show ?thesis using Inr
      by (intro queue_ext_plain [where c = c and r = "nextRef s" and e = PoolExhausted])
         (simp_all add: acquire_resume_def Let_def incUse_def alloc_def)
  qed
qed

lemma queue_ext_replaceSession_resume: "queue_ext s (replaceSession_resume cfg old res s)"
  by (rule queue_ext_same)
     (auto simp: replaceSession_resume_def Let_def split: sum.splits)

lemma queue_ext_complete: "queue_ext s (complete v cfg tid env s)"
proof (cases "tasks s tid")
  case None
  then show ?thesis by (simp add: complete_def queue_ext_refl)
next
  case (Some t)
  let ?s0 = "s\<lparr>tasks := (tasks s)(tid := None)\<rparr>"
  let ?s1 = "?s0\<lparr>trace := trace ?s0 @ fst (createSession_rest v cfg env)\<rparr>"
  have s0: "queue_ext s ?s0" and s1: "queue_ext s ?s1"
    by (rule queue_ext_same; simp)+
  show ?thesis
  proof (cases t)
    case AddCreating
    with Some s1 queue_ext_addSession_resume show ?thesis
      by (auto simp: complete_def Let_def intro: queue_ext_trans)
  next
    case (AcquireCreating c)
    with Some s1 queue_ext_acquire_resume show ?thesis
      by (auto simp: complete_def Let_def intro: queue_ext_trans)
  next
    case (ReplaceCreating old)
    with Some s1 queue_ext_replaceSession_resume show ?thesis
      by (auto simp: complete_def Let_def intro: queue_ext_trans)
  next
    case (Closing r a)
    with Some show ?thesis
      by (intro queue_ext_same) (simp_all add: complete_def Let_def)
  next
    case (Stopping a)
    show ?thesis
    proof (cases a)
      case Nobody
      with Some Stopping show ?thesis
        by (intro queue_ext_same) (simp_all add: complete_def Let_def)
    next
      case AddClosing
      with Some Stopping show ?thesis
        by (intro queue_ext_same) (simp_all add: complete_def Let_def)
    next
      case (AcquireClosing c)
      with Some Stopping s0 queue_ext_acquire_tail show ?thesis
        by (auto simp: complete_def Let_def intro: queue_ext_trans)
    qed
  qed
qed

lemma queue_ext_step: "queue_ext s (step v cfg e s)"
proof (cases e)
  case Init
  then show ?thesis by (simp add: init_def queue_ext_same)
next
  case InitSettled
  then show ?thesis by (simp add: init_settled_def startHealthCheck_def queue_ext_same)
next
  case (Acquire c now)
  then show ?thesis by (simp add: queue_ext_acquire)
next
  case (Release r err now)
  then show ?thesis by (simp add: queue_ext_release)
next
  case Shutdown
  then show ?thesis by (simp add: queue_ext_shutdown)
next
  case (Complete tid env)
  then show ?thesis by (simp add: queue_ext_complete)
next
  case Timer
  then show ?thesis by (simp add: timer_def queue_ext_same)
next
  case (Disconnect r)
  then show ?thesis
    by (simp add: disconnect_def onDisconnected_def Let_def queue_ext_same)
next
  case (HealthTick now)
  then show ?thesis
    by (simp add: healthTick_def performHealthCheck_def Let_def queue_ext_same)
qed

lemma queue_ext_run: "queue_ext s (run v cfg evs s)"
proof (induction evs arbitrary: s)
  case Nil
  show ?case by (simp add: queue_ext_refl)
next
  case (Cons e es)
  have "queue_ext s (step v cfg e s)" by (rule queue_ext_step)
  moreover have "queue_ext (step v cfg e s) (run v cfg es (step v cfg e s))" by (rule Cons.IH)
  ultimately show ?case by (simp add: queue_ext_trans)
qed

text \<open>Two callers of a list without repetition keep their order in every sublist.\<close>

lemma subseq_pair_cases:
  "a \<in> set xs \<Longrightarrow> b \<in> set xs \<Longrightarrow> a \<noteq> b \<Longrightarrow> subseq [a, b] xs \<or> subseq [b, a] xs"
proof (induction xs)
  case Nil
  then show ?case by simp
next
  case (Cons x xs)
  then show ?case by (auto simp: subseq_singleton_left)
qed

lemma subseq_mem: "subseq xs ys \<Longrightarrow> x \<in> set xs \<Longrightarrow> x \<in> set ys"
  using list_emb_set [of "(=)" xs ys x] by blast

lemma subseq_keeps_distinct: "subseq xs ys \<Longrightarrow> distinct ys \<Longrightarrow> distinct xs"
proof (induction rule: list_emb.induct)
  case (list_emb_Nil ys)
  show ?case by simp
next
  case (list_emb_Cons xs ys y)
  then show ?case by simp
next
  case (list_emb_Cons2 x y xs ys)
  then show ?case using subseq_mem [of xs ys x] by auto
qed

lemma subseq_pair_distinct:
  "distinct ys \<Longrightarrow> subseq [a, b] ys \<Longrightarrow> \<not> subseq [b, a] ys"
proof (induction ys)
  case Nil
  then show ?case by simp
next
  case (Cons y ys)
  then show ?case
    using subseq_mem [of "[b, y]" ys y] subseq_mem [of "[a, y]" ys y]
    by (auto simp: subseq_singleton_left subseq_Cons2_iff split: if_splits)
qed

lemma subseq_pair:
  assumes "subseq xs ys" and "distinct ys" and "subseq [a, b] ys"
    and "a \<in> set xs" and "b \<in> set xs"
  shows "subseq [a, b] xs"
proof -
  have "a \<noteq> b" using subseq_keeps_distinct [OF assms(3,2)] by simp
  then have "subseq [a, b] xs \<or> subseq [b, a] xs"
    using assms(4,5) by (intro subseq_pair_cases)
  moreover have "\<not> subseq [b, a] xs"
    using subseq_pair_distinct [OF assms(2,3)] assms(1) subseq_order.order_trans by blast
  ultimately show ?thesis by blast
qed

lemma st_filling_fields:
  "waitQueue st_filling = [4, 5]" "tasks st_filling 1 = Some AddCreating"
  "\<not> closed st_filling" "totalCount st_filling = 2" "nextRef st_filling = 1"
  "outcomes st_filling = [Returned 9 0]" "inUse st_filling = [0]" "available st_filling = []"
  by (simp_all add: st_filling_def acquire_loop_eq cfg_two_def sample_defs pool_defs Let_def
      numeral_2_eq_2)

text \<open>
  C7, as the code has it. Over any run, from any state: outcomes are only added; the
  callers that left the wait queue during the run are, in the order in which they left
  it, the first of the queue at the start followed by the callers parked during the run
  in the order of their parking, and the queue at the end is the rest. So the callers
  that were handed a session are, in the order of the hand-offs, a sublist of the order
  of blocking: of two callers that are both served, the one that blocked first is served
  first. The steps that make it so: \<open>acquire\<close> on a saturated pool appends the
  caller to the queue; \<open>release\<close> of a usable session hands it to the head of the
  queue; a creation of \<open>addSession\<close> that succeeds hands the new session to the head
  of the queue; one that fails rejects the head of the queue; an \<open>acquire\<close> that has
  closed the session it created on demand appends its caller to the queue;
  \<open>shutdown\<close> rejects the whole queue, in order. A caller therefore leaves the queue
  served or rejected, always from the head.
\<close>

theorem wait_queue_fifo:
  "(\<exists>more new. outcomes (run v cfg evs s) = outcomes s @ more
      \<and> dequeued more = take (length (dequeued more)) (waitQueue s @ new)
      \<and> waitQueue (run v cfg evs s) = drop (length (dequeued more)) (waitQueue s @ new)
      \<and> subseq (served more) (waitQueue s @ new)
      \<and> (distinct (waitQueue s @ new) \<longrightarrow>
           (\<forall>a b. subseq [a, b] (waitQueue s @ new)
              \<and> a \<in> set (served more) \<and> b \<in> set (served more)
              \<longrightarrow> subseq [a, b] (served more))))
   \<and> (enableWaitQueue cfg
        \<and> (\<forall>d\<in>set (available s). \<not> isUsable v cfg now (heap s d))
        \<and> int (poolSize cfg) < int (length (inUse s)) + creating s + 1 \<longrightarrow>
      waitQueue (acquire v cfg c now s) = waitQueue s @ [c]
    \<and> outcomes (acquire v cfg c now s) = outcomes s)
   \<and> (enableWaitQueue cfg \<and> waitQueue s \<noteq> []
        \<and> \<not> err \<and> isUsable v cfg now (heap s r) \<longrightarrow>
      waitQueue (release v cfg r err now s) = tl (waitQueue s)
    \<and> outcomes (release v cfg r err now s) = outcomes s @ [Resolved (hd (waitQueue s)) r])
   \<and> (enableWaitQueue cfg \<and> waitQueue s \<noteq> []
        \<and> tasks s tid = Some AddCreating \<and> snd (createSession_rest v cfg env) = Inr x
        \<and> \<not> closed s \<and> totalCount s \<le> int (poolSize cfg) \<longrightarrow>
      waitQueue (complete v cfg tid env s) = tl (waitQueue s)
    \<and> outcomes (complete v cfg tid env s)
        = outcomes s @ [Resolved (hd (waitQueue s)) (nextRef s)])
   \<and> (enableWaitQueue cfg \<and> waitQueue s \<noteq> []
        \<and> tasks s tid = Some AddCreating \<and> snd (createSession_rest v cfg env) = Inl e \<longrightarrow>
      waitQueue (complete v cfg tid env s) = tl (waitQueue s)
    \<and> outcomes (complete v cfg tid env s) = outcomes s @ [Rejected (hd (waitQueue s)) e])
   \<and> (enableWaitQueue cfg \<and> tasks s tid = Some (Stopping (AcquireClosing c)) \<longrightarrow>
      waitQueue (complete v cfg tid env s) = waitQueue s @ [c]
    \<and> outcomes (complete v cfg tid env s) = outcomes s)
   \<and> waitQueue (shutdown s) = []
   \<and> outcomes (shutdown s)
       = outcomes s @ map (\<lambda>c. Rejected c PoolShuttingDown) (waitQueue s)"
proof (intro conjI)
  from queue_ext_run [of s v cfg evs] obtain more new where
    o: "outcomes (run v cfg evs s) = outcomes s @ more"
    and q: "dequeued more @ waitQueue (run v cfg evs s) = waitQueue s @ new"
    by (auto simp: queue_ext_def)
  have t: "dequeued more = take (length (dequeued more)) (waitQueue s @ new)"
    and d: "waitQueue (run v cfg evs s) = drop (length (dequeued more)) (waitQueue s @ new)"
    unfolding q [symmetric] by simp_all
  have "subseq (served more) (dequeued more @ waitQueue (run v cfg evs s))"
    using subseq_served_dequeued by (rule list_emb_prefix)
  then have sb: "subseq (served more) (waitQueue s @ new)" unfolding q .
  have pw: "distinct (waitQueue s @ new) \<longrightarrow>
           (\<forall>a b. subseq [a, b] (waitQueue s @ new)
              \<and> a \<in> set (served more) \<and> b \<in> set (served more)
              \<longrightarrow> subseq [a, b] (served more))"
    using subseq_pair [OF sb] by blast
  from o t d sb pw
  show "\<exists>more new. outcomes (run v cfg evs s) = outcomes s @ more
      \<and> dequeued more = take (length (dequeued more)) (waitQueue s @ new)
      \<and> waitQueue (run v cfg evs s) = drop (length (dequeued more)) (waitQueue s @ new)
      \<and> subseq (served more) (waitQueue s @ new)
      \<and> (distinct (waitQueue s @ new) \<longrightarrow>
           (\<forall>a b. subseq [a, b] (waitQueue s @ new)
              \<and> a \<in> set (served more) \<and> b \<in> set (served more)
              \<longrightarrow> subseq [a, b] (served more)))"
    by blast
next
  show "enableWaitQueue cfg
        \<and> (\<forall>d\<in>set (available s). \<not> isUsable v cfg now (heap s d))
        \<and> int (poolSize cfg) < int (length (inUse s)) + creating s + 1 \<longrightarrow>
      waitQueue (acquire v cfg c now s) = waitQueue s @ [c]
    \<and> outcomes (acquire v cfg c now s) = outcomes s"
  proof
    assume a: "enableWaitQueue cfg
        \<and> (\<forall>d\<in>set (available s). \<not> isUsable v cfg now (heap s d))
        \<and> int (poolSize cfg) < int (length (inUse s)) + creating s + 1"
    let ?bad = "\<lambda>r. \<not> isUsable v cfg now (heap s r)"
    have tw: "takeWhile ?bad (rev (available s)) = rev (available s)"
      and dw: "dropWhile ?bad (rev (available s)) = []"
      using a by simp_all
    have loop: "acquire_loop v cfg now s =
        (None, (closeStarted Nobody (rev (available s)) s)\<lparr>available := []\<rparr>)"
      using a by (intro acquire_loop_stale) simp
    show "waitQueue (acquire v cfg c now s) = waitQueue s @ [c]
      \<and> outcomes (acquire v cfg c now s) = outcomes s"
      using a by (simp add: acquire_def loop totalCount_def acquire_tail_def Let_def)
  qed
next
  show "enableWaitQueue cfg \<and> waitQueue s \<noteq> []
        \<and> \<not> err \<and> isUsable v cfg now (heap s r) \<longrightarrow>
      waitQueue (release v cfg r err now s) = tl (waitQueue s)
    \<and> outcomes (release v cfg r err now s) = outcomes s @ [Resolved (hd (waitQueue s)) r]"
    by (cases v) (simp_all add: release_def Let_def handOff_def incUse_def)
next
  show "enableWaitQueue cfg \<and> waitQueue s \<noteq> []
        \<and> tasks s tid = Some AddCreating \<and> snd (createSession_rest v cfg env) = Inr x
        \<and> \<not> closed s \<and> totalCount s \<le> int (poolSize cfg) \<longrightarrow>
      waitQueue (complete v cfg tid env s) = tl (waitQueue s)
    \<and> outcomes (complete v cfg tid env s)
        = outcomes s @ [Resolved (hd (waitQueue s)) (nextRef s)]"
    by (simp add: complete_def addSession_resume_def Let_def handOff_def incUse_def
        attachHandler_def alloc_def totalCount_def)
next
  show "enableWaitQueue cfg \<and> waitQueue s \<noteq> []
        \<and> tasks s tid = Some AddCreating \<and> snd (createSession_rest v cfg env) = Inl e \<longrightarrow>
      waitQueue (complete v cfg tid env s) = tl (waitQueue s)
    \<and> outcomes (complete v cfg tid env s) = outcomes s @ [Rejected (hd (waitQueue s)) e]"
    by (simp add: complete_def addSession_resume_def Let_def)
next
  show "enableWaitQueue cfg \<and> tasks s tid = Some (Stopping (AcquireClosing c)) \<longrightarrow>
      waitQueue (complete v cfg tid env s) = waitQueue s @ [c]
    \<and> outcomes (complete v cfg tid env s) = outcomes s"
    by (simp add: complete_def acquire_tail_def Let_def)
next
  show "waitQueue (shutdown s) = []"
    and "outcomes (shutdown s)
       = outcomes s @ map (\<lambda>c. Rejected c PoolShuttingDown) (waitQueue s)"
    by (simp_all add: shutdown_def Let_def fold_closeSession)
qed

text \<open>
  The scenario of the specification: size one, one session in use; caller \<open>4\<close> blocks,
  and with \<open>4\<close> and \<open>5\<close> queued the session is released: caller \<open>4\<close>
  receives it. In the pool of two that is filling, the second creation serves caller
  \<open>4\<close> when it succeeds and rejects caller \<open>4\<close> when it fails. With the
  session released twice by those who received it, callers \<open>4\<close> and \<open>5\<close> are
  served in the order in which they blocked.
\<close>

theorem wait_queue_fifo_witness:
  "enableWaitQueue cfg_one \<and> enableWaitQueue cfg_two
   \<and> int (poolSize cfg_one) < int (length (inUse st_busy)) + creating st_busy + 1
   \<and> waitQueue (acquire Enhanced cfg_one 4 1 st_busy) = [4]
   \<and> isUsable Enhanced cfg_one 3 (heap st_waiting 1)
   \<and> waitQueue (release Enhanced cfg_one 1 False 3 st_waiting) = [5]
   \<and> outcomes (release Enhanced cfg_one 1 False 3 st_waiting) = [Resolved 4 1]
   \<and> tasks st_filling 1 = Some AddCreating \<and> \<not> closed st_filling
   \<and> totalCount st_filling \<le> int (poolSize cfg_two)
   \<and> outcomes (complete Enhanced cfg_two 1 env_ok st_filling) = [Returned 9 0, Resolved 4 1]
   \<and> waitQueue (complete Enhanced cfg_two 1 env_ok st_filling) = [5]
   \<and> outcomes (complete Enhanced cfg_two 1 env_noconnect st_filling)
       = [Returned 9 0, Rejected 4 ConnectError]
   \<and> waitQueue (complete Enhanced cfg_two 1 env_noconnect st_filling) = [5]
   \<and> tasks st_closed_over 1 = Some (Stopping (AcquireClosing 3))
   \<and> waitQueue (complete Enhanced cfg_one 1 env_ok st_closed_over) = [3]
   \<and> outcomes (run Enhanced cfg_one
         [Acquire 4 1, Acquire 5 2, Release 1 False 3, Release 1 False 4] st_busy)
       = [Resolved 4 1, Resolved 5 1]
   \<and> subseq [4, 5] (served (outcomes (run Enhanced cfg_one
         [Acquire 4 1, Acquire 5 2, Release 1 False 3, Release 1 False 4] st_busy)))"
proof -
  let ?evs = "[Acquire 4 1, Acquire 5 2, Release 1 False 3, Release 1 False 4]"
  let ?s' = "run Enhanced cfg_one ?evs st_busy"
  have ev: "outcomes ?s' = [Resolved 4 1, Resolved 5 1]" "waitQueue ?s' = []"
    "outcomes st_busy = []" "waitQueue st_busy = []"
    by (simp_all add: acquire_loop_eq sample_defs pool_defs Let_def)
  from wait_queue_fifo [THEN conjunct1, of Enhanced cfg_one ?evs st_busy]
  obtain more new where o: "outcomes ?s' = outcomes st_busy @ more"
    and pf: "dequeued more = take (length (dequeued more)) (waitQueue st_busy @ new)"
    and sf: "waitQueue ?s' = drop (length (dequeued more)) (waitQueue st_busy @ new)"
    and pw: "distinct (waitQueue st_busy @ new) \<longrightarrow>
           (\<forall>a b. subseq [a, b] (waitQueue st_busy @ new)
              \<and> a \<in> set (served more) \<and> b \<in> set (served more)
              \<longrightarrow> subseq [a, b] (served more))"
    by blast
  from o have m: "more = [Resolved 4 1, Resolved 5 1]" unfolding ev by simp
  from pf have tn: "take (Suc (Suc 0)) new = [4, 5]" unfolding ev m by simp
  from sf have dn: "drop (Suc (Suc 0)) new = []" unfolding ev m by simp
  have "new = take (Suc (Suc 0)) new @ drop (Suc (Suc 0)) new"
    by (simp only: append_take_drop_id)
  then have n: "new = [4, 5]" unfolding tn dn by simp
  from pw have "subseq [4, 5] (served more)" unfolding ev n m by simp
  then have sv: "subseq [4, 5] (served (outcomes ?s'))" unfolding ev m .
  have q1: "enableWaitQueue cfg_one" and q2: "enableWaitQueue cfg_two"
    by (simp_all add: cfg_two_def sample_defs)
  have st: "\<forall>d\<in>set (available st_busy). \<not> isUsable Enhanced cfg_one 1 (heap st_busy d)"
    by (simp add: sample_defs)
  have full: "int (poolSize cfg_one) < int (length (inUse st_busy)) + creating st_busy + 1"
    by (simp add: sample_defs)
  have us: "isUsable Enhanced cfg_one 3 (heap st_waiting 1)"
    by (simp add: sample_defs sample2_defs isUsable_def)
  have ne: "waitQueue st_waiting \<noteq> []" by (simp add: sample_defs sample2_defs)
  have nf: "waitQueue st_filling \<noteq> []" by (simp add: st_filling_fields)
  have tk: "tasks st_filling 1 = Some AddCreating" and nc: "\<not> closed st_filling"
    by (rule st_filling_fields)+
  have tc: "totalCount st_filling \<le> int (poolSize cfg_two)"
    by (simp add: st_filling_fields cfg_two_def)
  have ok: "snd (createSession_rest Enhanced cfg_two env_ok) = Inr sess_fresh"
    by (simp add: cfg_two_def sample_defs createSession_rest_def)
  have no: "snd (createSession_rest Enhanced cfg_two env_noconnect) = Inl ConnectError"
    by (simp add: cfg_two_def sample_defs createSession_rest_def)
  have n: "\<not> False" by simp
  note steps = wait_queue_fifo [THEN conjunct2]
  note parks = steps [THEN conjunct1, THEN mp]
  note hands = steps [THEN conjunct2, THEN conjunct1, THEN mp]
  note serves = steps [THEN conjunct2, THEN conjunct2, THEN conjunct1, THEN mp]
  note rejects = steps [THEN conjunct2, THEN conjunct2, THEN conjunct2, THEN conjunct1, THEN mp]
  note resumes = steps [THEN conjunct2, THEN conjunct2, THEN conjunct2, THEN conjunct2,
      THEN conjunct1, THEN mp]
  have a: "waitQueue (acquire Enhanced cfg_one 4 1 st_busy) = waitQueue st_busy @ [4]"
    by (rule parks [THEN conjunct1]) (intro conjI, (rule q1 st full)+)
  have b: "waitQueue (release Enhanced cfg_one 1 False 3 st_waiting) = tl (waitQueue st_waiting)
      \<and> outcomes (release Enhanced cfg_one 1 False 3 st_waiting)
          = outcomes st_waiting @ [Resolved (hd (waitQueue st_waiting)) 1]"
    by (rule hands) (intro conjI, (rule q1 ne n us)+)
  have c: "waitQueue (complete Enhanced cfg_two 1 env_ok st_filling) = tl (waitQueue st_filling)
      \<and> outcomes (complete Enhanced cfg_two 1 env_ok st_filling)
          = outcomes st_filling @ [Resolved (hd (waitQueue st_filling)) (nextRef st_filling)]"
    by (rule serves) (intro conjI, (rule q2 nf tk ok nc tc)+)
  have d: "waitQueue (complete Enhanced cfg_two 1 env_noconnect st_filling)
        = tl (waitQueue st_filling)
      \<and> outcomes (complete Enhanced cfg_two 1 env_noconnect st_filling)
          = outcomes st_filling @ [Rejected (hd (waitQueue st_filling)) ConnectError]"
    by (rule rejects) (intro conjI, (rule q2 nf tk no)+)
  have a': "waitQueue (acquire Enhanced cfg_one 4 1 st_busy) = [4]"
    unfolding a by (simp add: sample_defs)
  have b1: "waitQueue (release Enhanced cfg_one 1 False 3 st_waiting) = [5]"
    unfolding b [THEN conjunct1] by (simp add: sample_defs sample2_defs)
  have b2: "outcomes (release Enhanced cfg_one 1 False 3 st_waiting) = [Resolved 4 1]"
    unfolding b [THEN conjunct2] by (simp add: sample_defs sample2_defs)
  have c1: "waitQueue (complete Enhanced cfg_two 1 env_ok st_filling) = [5]"
    unfolding c [THEN conjunct1] by (simp add: st_filling_fields)
  have c2: "outcomes (complete Enhanced cfg_two 1 env_ok st_filling)
      = [Returned 9 0, Resolved 4 1]"
    unfolding c [THEN conjunct2] by (simp add: st_filling_fields)
  have d1: "waitQueue (complete Enhanced cfg_two 1 env_noconnect st_filling) = [5]"
    unfolding d [THEN conjunct1] by (simp add: st_filling_fields)
  have d2: "outcomes (complete Enhanced cfg_two 1 env_noconnect st_filling)
      = [Returned 9 0, Rejected 4 ConnectError]"
    unfolding d [THEN conjunct2] by (simp add: st_filling_fields)
  have ts: "tasks st_closed_over 1 = Some (Stopping (AcquireClosing 3))"
    and wq: "waitQueue st_closed_over = []"
    by (simp_all add: st_closed_over_def sample_defs sample2_defs)
  have "waitQueue (complete Enhanced cfg_one 1 env_ok st_closed_over)
      = waitQueue st_closed_over @ [3]"
    by (rule resumes [THEN conjunct1]) (intro conjI, (rule q1 ts)+)
  then have f: "waitQueue (complete Enhanced cfg_one 1 env_ok st_closed_over) = [3]"
    unfolding wq by simp
  show ?thesis
    by (intro conjI) (rule q1 q2 full a' us b1 b2 tk nc tc c2 c1 d2 d1 ts f ev(1) sv)+
qed

text \<open>
  C7 as stated fails: the caller that blocked first need not be served before the one
  that blocked second, because it can leave the queue rejected. In the pool of two that
  is filling, callers \<open>4\<close> then \<open>5\<close> are queued on a saturated pool; the creation
  in flight fails and \<open>addSession\<close> rejects caller \<open>4\<close>; the session in use is
  then released and goes to caller \<open>5\<close>. Every \<open>release\<close> of the run is of a
  session in use.
\<close>

theorem rejected_head_is_overtaken:
  "waitQueue (run Basic cfg_two [Init, Complete 0 env_ok, Acquire 9 1, Acquire 4 2, Acquire 5 3]
      init_state) = [4, 5]
   \<and> totalCount (run Basic cfg_two [Init, Complete 0 env_ok, Acquire 9 1, Acquire 4 2, Acquire 5 3]
      init_state) = int (poolSize cfg_two)
   \<and> outcomes (run Basic cfg_two [Init, Complete 0 env_ok, Acquire 9 1, Acquire 4 2, Acquire 5 3,
        Complete 1 env_noconnect, Release 0 False 4] init_state)
       = [Returned 9 0, Rejected 4 ConnectError, Resolved 5 0]
   \<and> honest Basic cfg_two [Init, Complete 0 env_ok, Acquire 9 1, Acquire 4 2, Acquire 5 3,
        Complete 1 env_noconnect, Release 0 False 4] init_state"
  by (simp add: acquire_loop_eq cfg_two_def sample_defs pool_defs Let_def
      numeral_2_eq_2)

subsection \<open>The sets hold no session twice\<close>

lemma tidy_cong:
  "available s' = available s \<Longrightarrow> inUse s' = inUse s \<Longrightarrow> nextRef s' = nextRef s
    \<Longrightarrow> tidy s' = tidy s"
  by (simp add: tidy_def)

lemma sets_frame [simp]:
  "available (closeSession w r s) = available s" "inUse (closeSession w r s) = inUse s"
  "nextRef (closeSession w r s) = nextRef s"
  "available (closeSession_stop tid w r s) = available s"
  "inUse (closeSession_stop tid w r s) = inUse s"
  "nextRef (closeSession_stop tid w r s) = nextRef s"
  "available (suspend t s) = available s" "inUse (suspend t s) = inUse s"
  "nextRef (suspend t s) = nextRef s"
  "available (startCreate t s) = available s" "inUse (startCreate t s) = inUse s"
  "nextRef (startCreate t s) = nextRef s"
  "available (incUse r s) = available s" "inUse (incUse r s) = inUse s"
  "nextRef (incUse r s) = nextRef s"
  "available (attachHandler cfg r s) = available s" "inUse (attachHandler cfg r s) = inUse s"
  "nextRef (attachHandler cfg r s) = nextRef s"
  "available (addSession cfg s) = available s" "inUse (addSession cfg s) = inUse s"
  "nextRef (addSession cfg s) = nextRef s"
  "available (replenish cfg s) = available s" "inUse (replenish cfg s) = inUse s"
  "nextRef (replenish cfg s) = nextRef s"
  "available (alloc x s) = available s" "inUse (alloc x s) = inUse s"
  "nextRef (alloc x s) = Suc (nextRef s)"
  by (simp_all add: closeSession_def closeSession_stop_def suspend_def startCreate_def
      incUse_def attachHandler_def addSession_def replenish_def alloc_def Let_def)

lemma sets_frame_init [simp]:
  "available ((addSession cfg ^^ n) s) = available s"
  "inUse ((addSession cfg ^^ n) s) = inUse s"
  "nextRef ((addSession cfg ^^ n) s) = nextRef s"
  by (induction n) simp_all

lemma tidy_push:
  assumes "tidy s" and "r \<notin> set (available s)" and "r \<notin> set (inUse s)" and "r < nextRef s"
  shows "tidy (s\<lparr>available := available s @ [r]\<rparr>)"
  using assms by (auto simp: tidy_def)

lemma tidy_take:
  assumes "tidy s" and "r \<notin> set (available s)" and "r \<notin> set (inUse s)" and "r < nextRef s"
  shows "tidy (s\<lparr>inUse := set_add r (inUse s)\<rparr>)"
  using assms by (auto simp: tidy_def set_add_def)

lemma tidy_handOff:
  assumes "tidy s" and "r \<notin> set (available s)" and "r \<notin> set (inUse s)" and "r < nextRef s"
  shows "tidy (handOff r s)"
proof -
  have "tidy (handOff r s) = tidy (s\<lparr>inUse := set_add r (inUse s)\<rparr>)"
    by (rule tidy_cong) (simp_all add: handOff_def)
  with tidy_take [OF assms] show ?thesis by simp
qed

lemma tidy_smaller:
  assumes "tidy s" and "set av \<subseteq> set (available s)" and "distinct av"
    and "set iu \<subseteq> set (inUse s)" and "distinct iu"
  shows "tidy (s\<lparr>available := av, inUse := iu\<rparr>)"
  using assms by (auto simp: tidy_def)

lemma tidy_fresh:
  assumes "tidy s"
  shows "tidy (alloc x s)" and "nextRef s \<notin> set (available (alloc x s))"
    and "nextRef s \<notin> set (inUse (alloc x s))" and "nextRef s < nextRef (alloc x s)"
  using assms by (auto simp: tidy_def less_Suc_eq)

lemma acquire_loop_split:
  assumes "acquire_loop v cfg now s = (found, s1)"
  shows "inUse s1 = inUse s \<and> nextRef s1 = nextRef s
    \<and> (case found of None \<Rightarrow> available s1 = []
        | Some r \<Rightarrow> \<exists>ds. available s = available s1 @ r # ds)"
proof -
  let ?bad = "\<lambda>r. \<not> isUsable v cfg now (heap s r)"
  let ?ds = "takeWhile ?bad (rev (available s))"
  let ?rest = "dropWhile ?bad (rev (available s))"
  show ?thesis
  proof (cases ?rest)
    case Nil
    with assms show ?thesis
      by (auto simp: acquire_loop_eq Let_def simp del: dropWhile_eq_Nil_conv)
  next
    case (Cons r rest')
    have "rev (available s) = ?ds @ ?rest" by simp
    then have "rev (rev (available s)) = rev (?ds @ r # rest')" using Cons by simp
    then have "available s = rev rest' @ r # rev ?ds" by simp
    with assms Cons show ?thesis
      by (auto simp: acquire_loop_eq Let_def)
  qed
qed

lemma tidy_acquire: "tidy s \<Longrightarrow> tidy (acquire v cfg c now s)"
proof -
  assume t: "tidy s"
  obtain found s1 where loop: "acquire_loop v cfg now s = (found, s1)"
    by (cases "acquire_loop v cfg now s")
  note sp = acquire_loop_split [OF loop]
  show ?thesis
  proof (cases found)
    case None
    with sp have "available s1 = []" "inUse s1 = inUse s" "nextRef s1 = nextRef s" by simp_all
    with t have t1: "tidy s1" by (simp add: tidy_def)
    have "tidy (acquire v cfg c now s) = tidy s1"
      by (rule tidy_cong) (simp_all add: acquire_def loop None Let_def acquire_tail_def)
    with t1 show ?thesis by simp
  next
    case (Some r)
    with sp obtain ds where av: "available s = available s1 @ r # ds"
      and iu: "inUse s1 = inUse s" and nr: "nextRef s1 = nextRef s" by auto
    from t av iu nr have t1: "tidy s1" and f: "r \<notin> set (available s1)" "r \<notin> set (inUse s1)"
      "r < nextRef s1"
      by (auto simp: tidy_def)
    have "tidy (acquire v cfg c now s) = tidy (s1\<lparr>inUse := set_add r (inUse s1)\<rparr>)"
      by (rule tidy_cong) (simp_all add: acquire_def loop Some)
    with tidy_take [OF t1 f] show ?thesis by simp
  qed
qed

lemma tidy_release:
  assumes t: "tidy s" and h: "r \<in> set (inUse s)"
  shows "tidy (release v cfg r err now s)"
proof -
  let ?s1 = "s\<lparr>inUse := set_delete r (inUse s)\<rparr>"
  have t1: "tidy ?s1" and f: "r \<notin> set (available ?s1)" "r \<notin> set (inUse ?s1)" "r < nextRef ?s1"
    using t h by (auto simp: tidy_def set_delete_def distinct_removeAll)
  show ?thesis
  proof (cases "err \<or> \<not> isUsable v cfg now (heap ?s1 r)")
    case True
    then have "tidy (release v cfg r err now s) = tidy ?s1"
      by (intro tidy_cong) (auto simp: release_def Let_def)
    with t1 show ?thesis by simp
  next
    case False
    let ?s2 = "if v = Enhanced
      then ?s1\<lparr>heap := (heap ?s1)(r := (heap ?s1 r)\<lparr>lastUsedAt := Some now\<rparr>)\<rparr> else ?s1"
    have t2: "tidy ?s2" and f2: "r \<notin> set (available ?s2)" "r \<notin> set (inUse ?s2)"
      "r < nextRef ?s2"
      using t1 f by (auto simp: tidy_def)
    have "tidy (handOff r ?s2)" using t2 f2 by (rule tidy_handOff)
    moreover have "tidy (?s2\<lparr>available := available ?s2 @ [r]\<rparr>)"
      using t2 f2 by (rule tidy_push)
    ultimately show ?thesis using False
      by (simp add: release_def Let_def)
  qed
qed

lemma tidy_release_closed:
  assumes t: "tidy s" and c: "err \<or> \<not> isUsable v cfg now (heap s r)"
  shows "tidy (release v cfg r err now s)"
proof -
  let ?s1 = "s\<lparr>inUse := set_delete r (inUse s)\<rparr>"
  have t1: "tidy ?s1"
    using t by (auto simp: tidy_def set_delete_def distinct_removeAll)
  have "tidy (release v cfg r err now s) = tidy ?s1"
    using c by (intro tidy_cong) (auto simp: release_def Let_def)
  with t1 show ?thesis by simp
qed

lemma tidy_shutdown: "tidy (shutdown s)"
  by (simp add: tidy_def shutdown_def Let_def fold_closeSession)

lemma tidy_addSession_resume:
  assumes t: "tidy s"
  shows "tidy (addSession_resume cfg res s)"
proof (cases res)
  case (Inl err)
  have "tidy (addSession_resume cfg res s) = tidy s"
    using Inl by (intro tidy_cong) (simp_all add: addSession_resume_def Let_def)
  with t show ?thesis by simp
next
  case (Inr x)
  let ?r = "nextRef s"
  let ?s1 = "attachHandler cfg ?r (alloc x s)"
  have t1: "tidy ?s1" and f: "?r \<notin> set (available ?s1)" "?r \<notin> set (inUse ?s1)"
    "?r < nextRef ?s1"
    using tidy_fresh [OF t, of x] by (simp_all add: tidy_def)
  show ?thesis
  proof (cases "closed ?s1 \<or> totalCount ?s1 > int (poolSize cfg)")
    case True
    then have "tidy (addSession_resume cfg res s) = tidy ?s1"
      using Inr by (intro tidy_cong) (auto simp: addSession_resume_def Let_def)
    with t1 show ?thesis by simp
  next
    case False
    let ?s2 = "if enableWaitQueue cfg \<and> waitQueue ?s1 \<noteq> [] then handOff ?r ?s1
               else ?s1\<lparr>available := available ?s1 @ [?r]\<rparr>"
    have t2: "tidy ?s2"
      using tidy_handOff [OF t1 f] tidy_push [OF t1 f] by simp
    have "tidy (addSession_resume cfg res s) = tidy ?s2"
      using False Inr by (intro tidy_cong) (simp_all add: addSession_resume_def Let_def)
    with t2 show ?thesis by simp
  qed
qed

lemma tidy_acquire_resume:
  assumes t: "tidy s"
  shows "tidy (acquire_resume cfg c res s)"
proof (cases res)
  case (Inl err)
  have "tidy (acquire_resume cfg c res s) = tidy s"
    using Inl by (intro tidy_cong) (simp_all add: acquire_resume_def)
  with t show ?thesis by simp
next
  case (Inr x)
  let ?r = "nextRef s"
  let ?s1 = "alloc x s"
  have t1: "tidy ?s1" and f: "?r \<notin> set (available ?s1)" "?r \<notin> set (inUse ?s1)"
    "?r < nextRef ?s1"
    using tidy_fresh [OF t, of x] by simp_all
  show ?thesis
  proof (cases "totalCount ?s1 > int (poolSize cfg)")
    case True
    then have "tidy (acquire_resume cfg c res s) = tidy ?s1"
      using Inr by (intro tidy_cong) (simp_all add: acquire_resume_def Let_def)
    with t1 show ?thesis by simp
  next
    case False
    then have "tidy (acquire_resume cfg c res s) = tidy (?s1\<lparr>inUse := set_add ?r (inUse ?s1)\<rparr>)"
      using Inr by (intro tidy_cong) (simp_all add: acquire_resume_def Let_def)
    with tidy_take [OF t1 f] show ?thesis by simp
  qed
qed

lemma tidy_remove1:
  "tidy s \<Longrightarrow> tidy (s\<lparr>available := remove1 r (available s)\<rparr>)"
  by (auto simp: tidy_def dest: notin_set_remove1)

lemma tidy_replaceSession_resume:
  assumes t: "tidy s"
  shows "tidy (replaceSession_resume cfg old res s)"
proof (cases res)
  case (Inl err)
  have "tidy (replaceSession_resume cfg old res s)
      = tidy (s\<lparr>available := remove1 old (available s)\<rparr>)"
    using Inl by (intro tidy_cong) (simp_all add: replaceSession_resume_def remove1_idem)
  with tidy_remove1 [OF t] show ?thesis by simp
next
  case (Inr x)
  let ?r = "nextRef s"
  let ?s1 = "attachHandler cfg ?r (alloc x s)"
  let ?s2 = "?s1\<lparr>available := remove1 old (available ?s1)\<rparr>"
  have t1: "tidy ?s1" and f: "?r \<notin> set (available ?s1)" "?r \<notin> set (inUse ?s1)"
    "?r < nextRef ?s1"
    using tidy_fresh [OF t, of x] by (simp_all add: tidy_def)
  have t2: "tidy ?s2" using t1 by (rule tidy_remove1)
  have f2: "?r \<notin> set (available ?s2)" "?r \<notin> set (inUse ?s2)" "?r < nextRef ?s2"
    using f by (auto dest: notin_set_remove1)
  have "tidy (replaceSession_resume cfg old res s)
      = tidy (?s2\<lparr>available := available ?s2 @ [?r]\<rparr>)"
    using Inr by (intro tidy_cong) (simp_all add: replaceSession_resume_def Let_def)
  with tidy_push [OF t2 f2] show ?thesis by simp
qed

lemma tidy_complete:
  assumes t: "tidy s"
  shows "tidy (complete v cfg tid env s)"
proof (cases "tasks s tid")
  case None
  then show ?thesis using t by (simp add: complete_def)
next
  case (Some k)
  let ?s0 = "s\<lparr>tasks := (tasks s)(tid := None)\<rparr>"
  let ?s1 = "?s0\<lparr>trace := trace ?s0 @ fst (createSession_rest v cfg env)\<rparr>"
  have t0: "tidy ?s0" and t1: "tidy ?s1" using t by (simp_all add: tidy_def)
  show ?thesis
  proof (cases k)
    case AddCreating
    with Some tidy_addSession_resume [OF t1] show ?thesis
      by (simp add: complete_def Let_def)
  next
    case (AcquireCreating c)
    with Some tidy_acquire_resume [OF t1] show ?thesis
      by (simp add: complete_def Let_def)
  next
    case (ReplaceCreating old)
    with Some tidy_replaceSession_resume [OF t1] show ?thesis
      by (simp add: complete_def Let_def)
  next
    case (Closing r a)
    with Some t show ?thesis by (simp add: complete_def Let_def tidy_def)
  next
    case (Stopping a)
    with Some t show ?thesis
      by (cases a) (simp_all add: complete_def Let_def acquire_tail_def tidy_def)
  qed
qed

lemma tidy_evict: "tidy s \<Longrightarrow> tidy (evict r s)"
proof -
  assume t: "tidy s"
  have "tidy (evict r s) = tidy (s\<lparr>available := remove1 r (available s)\<rparr>)"
    by (rule tidy_cong) (simp_all add: evict_def remove1_idem)
  with tidy_remove1 [OF t] show ?thesis by simp
qed

lemma tidy_fold_evict: "tidy s \<Longrightarrow> tidy (fold evict xs s)"
  by (induction xs arbitrary: s) (simp_all add: tidy_evict)

lemma tidy_fold_replaceSession: "tidy (fold replaceSession xs s) = tidy s"
  by (rule tidy_cong) simp_all

lemma tidy_disconnect: "tidy s \<Longrightarrow> tidy (disconnect cfg r s)"
proof -
  assume t: "tidy s"
  let ?s1 = "s\<lparr>heap := (heap s)(r := (heap s r)\<lparr>connected := False\<rparr>)\<rparr>"
  have t1: "tidy ?s1" using t by (simp add: tidy_def)
  have d: "distinct (available s)" "distinct (inUse s)" using t by (simp_all add: tidy_def)
  have "tidy (?s1\<lparr>available := remove1 r (available ?s1), inUse := set_delete r (inUse ?s1)\<rparr>)"
  proof (rule tidy_smaller [OF t1])
    show "set (remove1 r (available ?s1)) \<subseteq> set (available ?s1)"
      by (rule set_remove1_subset)
    show "distinct (remove1 r (available ?s1))" using d by simp
    show "set (set_delete r (inUse ?s1)) \<subseteq> set (inUse ?s1)"
      by (auto simp: set_delete_def)
    show "distinct (set_delete r (inUse ?s1))" using d by (simp add: set_delete_def distinct_removeAll)
  qed
  moreover have "tidy (onDisconnected cfg r ?s1)
      = tidy (?s1\<lparr>available := remove1 r (available ?s1), inUse := set_delete r (inUse ?s1)\<rparr>)"
    by (rule tidy_cong) (simp_all add: onDisconnected_def)
  ultimately show ?thesis using t1 by (simp add: disconnect_def Let_def)
qed

lemma tidy_step:
  assumes t: "tidy s" and h: "held v cfg s e"
  shows "tidy (step v cfg e s)"
proof (cases e)
  case Init
  have "tidy (init cfg s) = tidy s" by (rule tidy_cong) (simp_all add: init_def)
  with t Init show ?thesis by simp
next
  case InitSettled
  have "tidy (init_settled cfg s) = tidy s"
    by (rule tidy_cong) (simp_all add: init_settled_def startHealthCheck_def)
  with t InitSettled show ?thesis by simp
next
  case (Acquire c now)
  with t show ?thesis by (simp add: tidy_acquire)
next
  case (Release r err now)
  then have "r \<in> set (inUse s) \<or> (err \<or> \<not> isUsable v cfg now (heap s r))"
    using h by simp
  then have "tidy (release v cfg r err now s)"
    using t tidy_release tidy_release_closed by blast
  then show ?thesis using Release by simp
next
  case Shutdown
  then show ?thesis by (simp add: tidy_shutdown)
next
  case (Complete tid env)
  with t show ?thesis by (simp add: tidy_complete)
next
  case Timer
  have "tidy (timer cfg s) = tidy s" by (rule tidy_cong) (simp_all add: timer_def)
  with t Timer show ?thesis by simp
next
  case (Disconnect r)
  with t show ?thesis by (simp add: tidy_disconnect)
next
  case (HealthTick now)
  let ?stale = "filter (\<lambda>r. \<not> isUsable v cfg now (heap s r)) (available s)"
  have a: "tidy (replenish cfg (fold replaceSession ?stale s))"
    using t by (simp add: tidy_cong [of "replenish cfg (fold replaceSession ?stale s)" s])
  have "tidy (replenish cfg (fold evict ?stale s)) = tidy (fold evict ?stale s)"
    by (rule tidy_cong) simp_all
  with tidy_fold_evict [OF t] have b: "tidy (replenish cfg (fold evict ?stale s))" by simp
  from a b t HealthTick show ?thesis
    by (cases v) (simp_all add: healthTick_def performHealthCheck_def Let_def)
qed

lemma tidy_run: "tidy s \<Longrightarrow> honest v cfg evs s \<Longrightarrow> tidy (run v cfg evs s)"
proof (induction evs arbitrary: s)
  case Nil
  then show ?case by simp
next
  case (Cons e es)
  from Cons.prems have "tidy (step v cfg e s)" by (simp add: tidy_step)
  with Cons show ?case by simp
qed

lemma sets_distinct_run:
  "honest v cfg evs init_state \<Longrightarrow>
    distinct (available (run v cfg evs init_state) @ inUse (run v cfg evs init_state))"
proof -
  assume h: "honest v cfg evs init_state"
  have "tidy init_state" by (simp add: tidy_def init_state_def)
  from tidy_run [OF this h] show ?thesis by (simp add: tidy_def)
qed

subsection \<open>A session that the pool has let go does not come back\<close>

text \<open>
  In an honest run a session that has left \<open>available\<close> and \<open>inUse\<close> stays out
  of them: \<open>release\<close> is the only operation that puts a session into the pool that
  it does not create itself.
\<close>

lemma gone_cong:
  "available s' = available s \<Longrightarrow> inUse s' = inUse s \<Longrightarrow> nextRef s' = nextRef s
    \<Longrightarrow> gone r s' = gone r s"
  by (simp add: gone_def)

lemma gone_acquire: "gone r s \<Longrightarrow> gone r (acquire v cfg c now s)"
proof -
  assume g: "gone r s"
  obtain found s1 where loop: "acquire_loop v cfg now s = (found, s1)"
    by (cases "acquire_loop v cfg now s")
  note sp = acquire_loop_split [OF loop]
  show ?thesis
  proof (cases found)
    case None
    with sp have "available s1 = []" "inUse s1 = inUse s" "nextRef s1 = nextRef s" by simp_all
    with g have g1: "gone r s1" by (simp add: gone_def)
    have "gone r (acquire v cfg c now s) = gone r s1"
      by (rule gone_cong) (simp_all add: acquire_def loop None Let_def acquire_tail_def)
    with g1 show ?thesis by simp
  next
    case (Some r')
    with sp obtain ds where av: "available s = available s1 @ r' # ds"
      and iu: "inUse s1 = inUse s" and nr: "nextRef s1 = nextRef s" by auto
    from g av iu nr have "gone r (s1\<lparr>inUse := set_add r' (inUse s1)\<rparr>)"
      by (auto simp: gone_def set_add_def)
    moreover have "gone r (acquire v cfg c now s) = gone r (s1\<lparr>inUse := set_add r' (inUse s1)\<rparr>)"
      by (rule gone_cong) (simp_all add: acquire_def loop Some)
    ultimately show ?thesis by simp
  qed
qed

lemma gone_release:
  assumes g: "gone r s" and h: "held v cfg s (Release r' err now)"
  shows "gone r (release v cfg r' err now s)"
  using g h
  by (cases v)
     (auto simp: gone_def release_def Let_def handOff_def set_add_def set_delete_def
        split: if_splits)

lemma gone_shutdown: "r < nextRef s \<Longrightarrow> gone r (shutdown s)"
  by (simp add: gone_def shutdown_def Let_def fold_closeSession)

lemma gone_addSession_resume: "gone r s \<Longrightarrow> gone r (addSession_resume cfg res s)"
  by (cases res)
     (auto simp: gone_def addSession_resume_def Let_def handOff_def set_add_def
        attachHandler_def alloc_def split: if_splits)

lemma gone_acquire_resume: "gone r s \<Longrightarrow> gone r (acquire_resume cfg c res s)"
  by (cases res)
     (auto simp: gone_def acquire_resume_def Let_def set_add_def alloc_def split: if_splits)

lemma gone_replaceSession_resume: "gone r s \<Longrightarrow> gone r (replaceSession_resume cfg old res s)"
  by (cases res)
     (auto simp: gone_def replaceSession_resume_def Let_def attachHandler_def alloc_def
        dest: notin_set_remove1 split: if_splits)

lemma gone_complete: "gone r s \<Longrightarrow> gone r (complete v cfg tid env s)"
proof (cases "tasks s tid")
  case None
  assume "gone r s"
  with None show ?thesis by (simp add: complete_def)
next
  case (Some k)
  assume g: "gone r s"
  let ?s0 = "s\<lparr>tasks := (tasks s)(tid := None)\<rparr>"
  let ?s1 = "?s0\<lparr>trace := trace ?s0 @ fst (createSession_rest v cfg env)\<rparr>"
  have g0: "gone r ?s0" and g1: "gone r ?s1" using g by (simp_all add: gone_def)
  show ?thesis
  proof (cases k)
    case AddCreating
    with Some gone_addSession_resume [OF g1] show ?thesis
      by (simp add: complete_def Let_def)
  next
    case (AcquireCreating c)
    with Some gone_acquire_resume [OF g1] show ?thesis
      by (simp add: complete_def Let_def)
  next
    case (ReplaceCreating old)
    with Some gone_replaceSession_resume [OF g1] show ?thesis
      by (simp add: complete_def Let_def)
  next
    case (Closing d a)
    with Some g show ?thesis by (simp add: complete_def Let_def gone_def)
  next
    case (Stopping a)
    with Some g show ?thesis
      by (cases a) (simp_all add: complete_def Let_def acquire_tail_def gone_def)
  qed
qed

lemma gone_evict: "gone r s \<Longrightarrow> gone r (evict d s)"
  by (auto simp: gone_def evict_def dest: notin_set_remove1)

lemma gone_fold_evict: "gone r s \<Longrightarrow> gone r (fold evict xs s)"
  by (induction xs arbitrary: s) (simp_all add: gone_evict)

lemma gone_disconnect: "gone r s \<Longrightarrow> gone r (disconnect cfg d s)"
  by (auto simp: gone_def disconnect_def onDisconnected_def Let_def set_delete_def
      dest: notin_set_remove1)

lemma gone_step:
  assumes g: "gone r s" and h: "held v cfg s e"
  shows "gone r (step v cfg e s)"
proof (cases e)
  case Init
  have "gone r (init cfg s) = gone r s" by (rule gone_cong) (simp_all add: init_def)
  with g Init show ?thesis by simp
next
  case InitSettled
  have "gone r (init_settled cfg s) = gone r s"
    by (rule gone_cong) (simp_all add: init_settled_def startHealthCheck_def)
  with g InitSettled show ?thesis by simp
next
  case (Acquire c now)
  with g show ?thesis by (simp add: gone_acquire)
next
  case (Release r' err now)
  with g h show ?thesis by (simp add: gone_release)
next
  case Shutdown
  from g have "r < nextRef s" by (simp add: gone_def)
  then have "gone r (shutdown s)" by (rule gone_shutdown)
  with Shutdown show ?thesis by simp
next
  case (Complete tid env)
  with g show ?thesis by (simp add: gone_complete)
next
  case Timer
  have "gone r (timer cfg s) = gone r s" by (rule gone_cong) (simp_all add: timer_def)
  with g Timer show ?thesis by simp
next
  case (Disconnect d)
  with g show ?thesis by (simp add: gone_disconnect)
next
  case (HealthTick now)
  let ?stale = "filter (\<lambda>r. \<not> isUsable v cfg now (heap s r)) (available s)"
  have a: "gone r (replenish cfg (fold replaceSession ?stale s))"
    using g by (simp add: gone_cong [of "replenish cfg (fold replaceSession ?stale s)" s])
  have "gone r (replenish cfg (fold evict ?stale s)) = gone r (fold evict ?stale s)"
    by (rule gone_cong) simp_all
  with gone_fold_evict [OF g] have b: "gone r (replenish cfg (fold evict ?stale s))" by simp
  from a b g HealthTick show ?thesis
    by (cases v) (simp_all add: healthTick_def performHealthCheck_def Let_def)
qed

lemma gone_run: "gone r s \<Longrightarrow> honest v cfg evs s \<Longrightarrow> gone r (run v cfg evs s)"
proof (induction evs arbitrary: s)
  case Nil
  then show ?case by simp
next
  case (Cons e es)
  from Cons.prems have "gone r (step v cfg e s)" by (simp add: gone_step)
  with Cons show ?case by simp
qed

lemma run_append: "run v cfg (xs @ ys) s = run v cfg ys (run v cfg xs s)"
  by (induction xs arbitrary: s) simp_all

lemma honest_append:
  "honest v cfg (xs @ ys) s = (honest v cfg xs s \<and> honest v cfg ys (run v cfg xs s))"
  by (induction xs arbitrary: s) auto

lemma count_list_distinct: "distinct xs \<Longrightarrow> count_list xs r \<le> 1"
  by (induction xs) (auto simp: count_list_0_iff)

lemma count_list_absent: "r \<notin> set xs \<Longrightarrow> count_list xs r = 0"
  by (simp add: count_list_0_iff)

lemma two_shutdowns:
  assumes h: "honest v cfg (evs1 @ Shutdown # evs2) init_state"
  shows "count_list (available (run v cfg evs1 init_state) @ inUse (run v cfg evs1 init_state)) r
       + count_list (available (run v cfg (evs1 @ Shutdown # evs2) init_state)
           @ inUse (run v cfg (evs1 @ Shutdown # evs2) init_state)) r \<le> 1"
proof -
  let ?s1 = "run v cfg evs1 init_state"
  let ?s2 = "run v cfg (evs1 @ Shutdown # evs2) init_state"
  have h1: "honest v cfg evs1 init_state"
    and h2: "honest v cfg evs2 (shutdown ?s1)"
    using h by (simp_all add: honest_append)
  have ti: "tidy init_state" by (simp add: tidy_def init_state_def)
  have t1: "tidy ?s1" using ti h1 by (rule tidy_run)
  have t2: "tidy ?s2" using ti h by (rule tidy_run)
  have s2: "?s2 = run v cfg evs2 (shutdown ?s1)" by (simp add: run_append)
  have c2: "count_list (available ?s2 @ inUse ?s2) r \<le> 1"
    using t2 by (intro count_list_distinct) (simp add: tidy_def)
  show ?thesis
  proof (cases "r \<in> set (available ?s1 @ inUse ?s1)")
    case False
    then have "count_list (available ?s1 @ inUse ?s1) r = 0" by (rule count_list_absent)
    with c2 show ?thesis by simp
  next
    case True
    have c1: "count_list (available ?s1 @ inUse ?s1) r \<le> 1"
      using t1 by (intro count_list_distinct) (simp add: tidy_def)
    from True t1 have "r < nextRef ?s1" by (simp add: tidy_def)
    then have "gone r (shutdown ?s1)" by (rule gone_shutdown)
    then have "gone r ?s2" unfolding s2 using h2 by (rule gone_run)
    then have "r \<notin> set (available ?s2 @ inUse ?s2)" by (simp add: gone_def)
    then have "count_list (available ?s2 @ inUse ?s2) r = 0" by (rule count_list_absent)
    with c1 show ?thesis by simp
  qed
qed

subsection \<open>\<open>shutdown\<close> twice\<close>

lemma closes_of_append: "closes_of r (xs @ ys) = closes_of r xs + closes_of r ys"
  by (simp add: closes_of_def)

lemma closes_of_closes: "closes_of r (map BrowserClose xs) = count_list xs r"
  by (induction xs) (auto simp: closes_of_def)

lemma shutdown_idem: "shutdown (shutdown s) = shutdown s"
  by (simp add: shutdown_def Let_def fold_closeSession)

lemma shutdown_trace:
  "trace (shutdown s) = trace s @ map BrowserClose (available s @ inUse s)"
  by (simp add: shutdown_def Let_def fold_closeSession)

lemma shutdown_adds:
  "closes_of r (trace (shutdown s)) = closes_of r (trace s) + count_list (available s @ inUse s) r"
  unfolding shutdown_trace closes_of_append closes_of_closes ..

lemma shutdown_closes:
  "closes_of r (trace (shutdown (shutdown s)))
     = closes_of r (trace s) + count_list (available s @ inUse s) r"
  unfolding shutdown_idem shutdown_trace closes_of_append closes_of_closes ..

text \<open>
  C9, as the code has it. \<open>shutdown\<close> has no path that throws (every
  \<open>closeSession\<close> is caught). It calls \<open>closeSession\<close> for each entry of
  \<open>available\<close> followed by each member of \<open>inUse\<close>, once per entry, and leaves
  both empty; these calls are all that it leaves suspended. A second \<open>shutdown()\<close>
  right after the first changes nothing. So the two calls start the teardown of the
  session at \<open>r\<close> as often as it occurs in \<open>available\<close> and \<open>inUse\<close>: at most
  once when no session is held twice, which is so in every state that the empty pool
  reaches by an honest run. In an honest run this also holds when the two calls are apart:
  whatever happens before the first (\<open>evs1\<close>) and between the two (\<open>evs2\<close>), the
  closes that the two calls add for the session at \<open>r\<close> are at most one, because a
  session that the first call has closed does not come back into the pool.
\<close>

theorem shutdown_twice:
  "shutdown (shutdown s) = shutdown s
   \<and> tasks (shutdown s) = tasks (closeStarted Nobody (available s @ inUse s) s)
   \<and> closes_of r (trace (shutdown s))
       = closes_of r (trace s) + count_list (available s @ inUse s) r
   \<and> closes_of r (trace (shutdown (shutdown s)))
       = closes_of r (trace s) + count_list (available s @ inUse s) r
   \<and> (distinct (available s @ inUse s) \<longrightarrow>
        closes_of r (trace (shutdown (shutdown s))) \<le> closes_of r (trace s) + 1)
   \<and> (honest v cfg evs init_state \<longrightarrow>
        closes_of r (trace (shutdown (shutdown (run v cfg evs init_state))))
          \<le> closes_of r (trace (run v cfg evs init_state)) + 1)
   \<and> (honest v cfg (evs1 @ Shutdown # evs2) init_state \<longrightarrow>
        closes_of r (trace (shutdown (run v cfg evs1 init_state)))
        + closes_of r (trace (shutdown (run v cfg (evs1 @ Shutdown # evs2) init_state)))
          \<le> closes_of r (trace (run v cfg evs1 init_state))
            + closes_of r (trace (run v cfg (evs1 @ Shutdown # evs2) init_state)) + 1)"
proof -
  have d: "closes_of r (trace (shutdown (shutdown s'))) \<le> closes_of r (trace s') + 1"
    if "distinct (available s' @ inUse s')" for s'
    unfolding shutdown_closes using count_list_distinct [OF that, of r] by simp
  have a: "honest v cfg evs init_state \<longrightarrow>
        closes_of r (trace (shutdown (shutdown (run v cfg evs init_state))))
          \<le> closes_of r (trace (run v cfg evs init_state)) + 1"
    using d [OF sets_distinct_run] by blast
  have b: "honest v cfg (evs1 @ Shutdown # evs2) init_state \<longrightarrow>
        closes_of r (trace (shutdown (run v cfg evs1 init_state)))
        + closes_of r (trace (shutdown (run v cfg (evs1 @ Shutdown # evs2) init_state)))
          \<le> closes_of r (trace (run v cfg evs1 init_state))
            + closes_of r (trace (run v cfg (evs1 @ Shutdown # evs2) init_state)) + 1"
    unfolding shutdown_adds using two_shutdowns [of v cfg evs1 evs2 r] by auto
  have c: "tasks (shutdown s) = tasks (closeStarted Nobody (available s @ inUse s) s)"
    by (simp add: shutdown_def Let_def fold_closeSession closeStarted_def cong: if_cong)
  from a b c d [of s] shutdown_idem [of s] shutdown_closes [of r s] shutdown_adds [of r s]
  show ?thesis by blast
qed

theorem shutdown_twice_witness:
  "distinct (available st_pair @ inUse st_pair)
   \<and> shutdown (shutdown st_pair) = shutdown st_pair
   \<and> closes_of 1 (trace (shutdown (shutdown st_pair))) \<le> 1
   \<and> honest Basic cfg_one [Init, Complete 0 env_ok, Acquire 7 1] init_state
   \<and> closes_of 0 (trace (shutdown (shutdown
         (run Basic cfg_one [Init, Complete 0 env_ok, Acquire 7 1] init_state)))) \<le> 1
   \<and> honest Basic cfg_one ([Init, Complete 0 env_ok, Acquire 7 1] @ Shutdown # [Disconnect 0])
        init_state
   \<and> closes_of 0 (trace (run Basic cfg_one
         ([Init, Complete 0 env_ok, Acquire 7 1] @ Shutdown # [Disconnect 0]) init_state)) = 2
   \<and> closes_of 0 (trace (shutdown (run Basic cfg_one
         ([Init, Complete 0 env_ok, Acquire 7 1] @ Shutdown # [Disconnect 0]) init_state))) \<le> 2"
proof -
  let ?evs1 = "[Init, Complete 0 env_ok, Acquire 7 1]"
  let ?evs = "?evs1 @ Shutdown # [Disconnect 0]"
  have d: "distinct (available st_pair @ inUse st_pair)"
    by (simp add: sample2_defs sample_defs)
  have z: "closes_of 1 (trace st_pair) = 0"
    by (simp add: sample2_defs sample_defs closes_of_def)
  have h: "honest Basic cfg_one ?evs1 init_state"
    by (simp add: acquire_loop_eq sample_defs pool_defs Let_def)
  have z2: "closes_of 0 (trace (run Basic cfg_one ?evs1 init_state)) = 0"
    by (simp add: acquire_loop_eq sample_defs pool_defs closes_of_def Let_def)
  have h3: "honest Basic cfg_one ?evs init_state"
    by (simp add: acquire_loop_eq sample_defs pool_defs Let_def)
  have z3: "closes_of 0 (trace (run Basic cfg_one ?evs init_state)) = 2"
    by (simp add: acquire_loop_eq sample_defs pool_defs closes_of_def Let_def)
  have z4: "closes_of 0 (trace (shutdown (run Basic cfg_one ?evs1 init_state))) = 1"
    by (simp add: acquire_loop_eq sample_defs pool_defs closes_of_def Let_def)
  note th = shutdown_twice [where s = st_pair and r = 1 and v = Basic and cfg = cfg_one
      and evs = ?evs1 and ?evs1.0 = ?evs1 and ?evs2.0 = "[Disconnect 0]"]
  have i: "shutdown (shutdown st_pair) = shutdown st_pair"
    using th by (rule conjunct1)
  have "distinct (available st_pair @ inUse st_pair) \<longrightarrow>
      closes_of 1 (trace (shutdown (shutdown st_pair))) \<le> closes_of 1 (trace st_pair) + 1"
    using th by blast
  then have "closes_of 1 (trace (shutdown (shutdown st_pair))) \<le> closes_of 1 (trace st_pair) + 1"
    using d by (rule mp)
  then have c: "closes_of 1 (trace (shutdown (shutdown st_pair))) \<le> 1"
    unfolding z by simp
  note th0 = shutdown_twice [where s = st_pair and r = 0 and v = Basic and cfg = cfg_one
      and evs = ?evs1 and ?evs1.0 = ?evs1 and ?evs2.0 = "[Disconnect 0]"]
  have "honest Basic cfg_one ?evs1 init_state \<longrightarrow>
      closes_of 0 (trace (shutdown (shutdown (run Basic cfg_one ?evs1 init_state))))
        \<le> closes_of 0 (trace (run Basic cfg_one ?evs1 init_state)) + 1"
    using th0 by blast
  then have "closes_of 0 (trace (shutdown (shutdown (run Basic cfg_one ?evs1 init_state))))
        \<le> closes_of 0 (trace (run Basic cfg_one ?evs1 init_state)) + 1"
    using h by (rule mp)
  then have c0: "closes_of 0 (trace (shutdown (shutdown
         (run Basic cfg_one ?evs1 init_state)))) \<le> 1"
    unfolding z2 by simp
  have "honest Basic cfg_one ?evs init_state \<longrightarrow>
        closes_of 0 (trace (shutdown (run Basic cfg_one ?evs1 init_state)))
        + closes_of 0 (trace (shutdown (run Basic cfg_one ?evs init_state)))
          \<le> closes_of 0 (trace (run Basic cfg_one ?evs1 init_state))
            + closes_of 0 (trace (run Basic cfg_one ?evs init_state)) + 1"
    using th0 by blast
  then have "closes_of 0 (trace (shutdown (run Basic cfg_one ?evs1 init_state)))
        + closes_of 0 (trace (shutdown (run Basic cfg_one ?evs init_state)))
          \<le> closes_of 0 (trace (run Basic cfg_one ?evs1 init_state))
            + closes_of 0 (trace (run Basic cfg_one ?evs init_state)) + 1"
    using h3 by (rule mp)
  then have c3: "closes_of 0 (trace (shutdown (run Basic cfg_one ?evs init_state))) \<le> 2"
    unfolding z2 z3 z4 by simp
  show ?thesis
    by (intro conjI) (rule d i c h c0 h3 z3 c3)+
qed

text \<open>
  C9 as stated fails: a session can be torn down twice. After the double \<open>release\<close>
  the session is twice in \<open>available\<close> and one \<open>shutdown()\<close> calls
  \<open>closeSession\<close> for it twice. In an honest run, the browser of a session that
  \<open>shutdown()\<close> has closed reports its disconnection and the listener of the pool
  calls \<open>closeSession\<close> for it again; the second \<open>shutdown()\<close> adds nothing. In
  both runs the two calls of \<open>closeSession\<close> go on to their end (tasks \<open>1\<close> and
  \<open>2\<close>): the connection is closed twice and the provisioned session is stopped twice.
\<close>

theorem session_torn_down_twice:
  "trace (run Basic cfg_one
      [Init, Complete 0 env_ok, Acquire 7 1, Release 0 False 2, Release 0 False 3, Shutdown,
       Shutdown, Complete 1 env_ok, Complete 2 env_ok] init_state)
     = [SdkCreate, ConnectOverCDP ''ws://s1'', BrowserClose 0, BrowserClose 0,
        SdkStop ''s1'', SdkStop ''s1'']
   \<and> honest Basic cfg_one [Init, Complete 0 env_ok, Shutdown, Disconnect 0, Shutdown,
        Complete 1 env_ok, Complete 2 env_ok] init_state
   \<and> trace (run Basic cfg_one
      [Init, Complete 0 env_ok, Shutdown, Disconnect 0, Shutdown, Complete 1 env_ok,
       Complete 2 env_ok] init_state)
     = [SdkCreate, ConnectOverCDP ''ws://s1'', BrowserClose 0, BrowserClose 0,
        SdkStop ''s1'', SdkStop ''s1'']
   \<and> closes_of 0 (trace (run Basic cfg_one
      [Init, Complete 0 env_ok, Shutdown, Disconnect 0, Shutdown] init_state)) = 2"
  by (simp add: acquire_loop_eq sample_defs pool_defs closes_of_def Let_def)

end
